theory Spec2Isabelle
  imports Complex_Main "HOL-Library.Multiset" "HOL-Library.Log_Nat"
begin

section \<open>Number model\<close>

text \<open>
  The packing engine (\<^verbatim>\<open>packingAlgorithm.ts\<close>, the version with opening constraints)
  computes on JavaScript numbers, which are IEEE 754 doubles. Lengths, positions, volumes
  and the compressibility percentage are integers in the data model (millimetres,
  validated by \<^verbatim>\<open>validateVehicle\<close> and \<^verbatim>\<open>validateItem\<close>), and double arithmetic
  is exact on integers below \<open>2 ^ 53\<close>, so they are \<open>int\<close> here.

  A fractional value that the code rounds to an integer, compares or records per item is
  computed as the code computes it: the quotients \<^verbatim>\<open>compression / 100\<close> and
  \<^verbatim>\<open>compressibility / 100\<close>, the compression factor, the products
  \<^verbatim>\<open>dimension * compressionFactor\<close> and \<^verbatim>\<open>actualCompression * 100\<close>, and the products
  with the literal \<^verbatim>\<open>0.6\<close> in the flat filter and in the opening-area warning. A double
  is the rational it denotes, and every operation is the exact operation followed by
  \<open>fl\<close>, the rounding to the nearest double (53 significant bits, ties to the even
  significand). So \<open>325 * 0.7\<close> is \<open>227.49999999999997\<close> and rounds to 227, and
  \<open>0.55 * 100\<close> is \<open>55.00000000000001\<close>. The exponent range is not modelled (no
  overflow and no subnormal numbers): the values of this program are far from both ends.

  The efficiency factor, the effective volume and the utilization are only reported, no
  placement depends on them; they are exact rationals here, of which the double result
  is the rounding.
\<close>

text \<open>\<open>pow2 e\<close> is \<open>2\<close> to the power \<open>e\<close>, also for a negative \<open>e\<close>.\<close>

definition pow2 :: "int \<Rightarrow> rat" where
  "pow2 e = (if 0 \<le> e then 2 ^ nat e else 1 / 2 ^ nat (- e))"

text \<open>
  The binary exponent of a positive rational: \<open>pow2 (exponent v) \<le> v < pow2 (exponent v + 1)\<close>,
  found from the bit lengths of numerator and denominator.
\<close>

definition exponent :: "rat \<Rightarrow> int" where
  "exponent v =
     (let (a, b) = quotient_of v; e0 = bitlen a - bitlen b
      in if pow2 e0 \<le> v then e0 else e0 - 1)"

definition round_half_even :: "rat \<Rightarrow> int" where
  "round_half_even q =
     (let n = \<lfloor>q\<rfloor>; r = q - of_int n
      in if r < 1 / 2 then n else if 1 / 2 < r then n + 1 else if even n then n else n + 1)"

text \<open>
  The nearest double: the significand \<open>\<bar>v\<bar> / pow2 (exponent \<bar>v\<bar> - 52)\<close> lies in
  \<open>[2 ^ 52, 2 ^ 53)\<close> and is rounded to an integer.
\<close>

definition fl :: "rat \<Rightarrow> rat" where
  "fl v =
     (if v = 0 then 0
      else (let m = \<bar>v\<bar>; u = pow2 (exponent m - 52)
            in sgn v * (of_int (round_half_even (m / u)) * u)))"

text \<open>
  The same rounding and exponent on a fraction \<open>num / den\<close> of integers, in integer
  arithmetic; \<open>fl\<close> is evaluated through them (\<open>fl_code\<close>).
\<close>

definition round_frac :: "int \<Rightarrow> int \<Rightarrow> int" where
  "round_frac num den =
     (let n0 = num div den; r = num mod den
      in if 2 * r < den then n0 else if den < 2 * r then n0 + 1
         else if even n0 then n0 else n0 + 1)"

definition exponent_frac :: "int \<Rightarrow> int \<Rightarrow> int" where
  "exponent_frac a b =
     (let e0 = bitlen a - bitlen b
      in if (if 0 \<le> e0 then 2 ^ nat e0 * b \<le> a else b \<le> a * 2 ^ nat (- e0))
         then e0 else e0 - 1)"

text \<open>\<^verbatim>\<open>Math.round\<close> rounds to the nearest integer, a half upwards.\<close>

definition Math_round :: "rat \<Rightarrow> int" where
  "Math_round v = \<lfloor>v + 1 / 2\<rfloor>"

text \<open>
  An optional number used as a condition (\<^verbatim>\<open>a ? .. : ..\<close>, \<^verbatim>\<open>a || b\<close>) is falsy when
  it is undefined and when it is zero.
\<close>

fun truthy :: "int option \<Rightarrow> bool" where
  "truthy None = False"
| "truthy (Some n) = (n \<noteq> 0)"

text \<open>\<^verbatim>\<open>a || b\<close> on an optional number and a number.\<close>

fun or_else :: "int option \<Rightarrow> int \<Rightarrow> int" where
  "or_else None d = d"
| "or_else (Some n) d = (if n \<noteq> 0 then n else d)"

section \<open>Data model\<close>

datatype IrregularitySeverity = MINOR | MODERATE | SIGNIFICANT

datatype ItemRigidity = VERY_FLEXIBLE | FLEXIBLE | SEMI_RIGID | RIGID | COMPLETELY_RIGID

datatype ItemCategory = luggage | baby_gear | sports | shopping | equipment | custom

datatype OrientationConstraints = any_orientation | upright_only | flat_only

datatype IrregularityType =
  wheel_wells | spare_tire_bump | sloped_floor | narrow_opening | side_storage

datatype MeasurementConfidence = manufacturer | verified | user_submitted

text \<open>
  \<^verbatim>\<open>ItemDimensions {length, width, height}\<close>. The field \<^verbatim>\<open>length\<close> is \<open>length_dim\<close>
  here. \<^verbatim>\<open>BootMeasurements\<close> and \<^verbatim>\<open>BootSpace\<close> have the same three fields and more, and
  TypeScript passes a \<^verbatim>\<open>BootSpace\<close> where \<^verbatim>\<open>{length, width, height}\<close> is expected: they
  are extensions of the record.
\<close>

record ItemDimensions =
  length_dim :: int
  width :: int
  height :: int

record BootMeasurements = ItemDimensions +
  openingWidth :: "int option"
  openingHeight :: "int option"

record BootSpace = BootMeasurements +
  volume :: int
  efficiencyFactor :: rat
  hasOpeningConstraints :: bool

record BootIrregularity =
  type_irr :: IrregularityType
  severity :: IrregularitySeverity

record CabinOverflowSpaces =
  rearFloor :: "ItemDimensions option"
  rearSeatGap :: "ItemDimensions option"
  frontPassengerFloor :: "ItemDimensions option"

record Vehicle =
  makeModel :: string
  categoryTags :: "string list"
  bootMeasurements :: BootMeasurements
  bootIrregularities :: "BootIrregularity list"
  cabinOverflowSpaces :: CabinOverflowSpaces
  measurementConfidence :: MeasurementConfidence
  submissionCount :: int
  lastUpdated :: string
  hide :: "bool option"

record Item =
  name :: string
  dimensions :: ItemDimensions
  weight :: rat
  rigidity :: ItemRigidity
  category :: ItemCategory
  cabinSuitable :: bool
  compressibility :: int
  stackable :: bool
  orientationConstraints :: OrientationConstraints
  customItem :: bool

text \<open>
  \<^verbatim>\<open>ItemWithMetrics extends Item\<close>: the item copied with three derived fields
  (\<^verbatim>\<open>volume\<close> is \<open>volume_item\<close> here). These copies are what \<^verbatim>\<open>packItems\<close> pushes
  into its result lists.
\<close>

record ItemWithMetrics = Item +
  volume_item :: int
  rigidityOrder :: int
  orientations :: "ItemDimensions list"

record Position =
  x_pos :: int
  y_pos :: int
  z_pos :: int

record PackedItem =
  item :: ItemWithMetrics
  position :: Position
  orientation :: ItemDimensions
  compressed :: bool
  compressionApplied :: rat

text \<open>
  \<^verbatim>\<open>volumeUtilization\<close> is \<open>None\<close> when the JavaScript value is not a finite number
  (\<^verbatim>\<open>0 / 0\<close> is NaN, and \<^verbatim>\<open>Math.min\<close> of a negative infinity stays infinite).
\<close>

record PackingResult =
  packedItems :: "PackedItem list"
  unpackedItems :: "ItemWithMetrics list"
  volumeUtilization :: "rat option"
  bootSpaceUsed :: int
  bootSpaceAvailable :: rat
  cabinOverflowSuggested :: "ItemWithMetrics list"
  warnings :: "string list"

section \<open>Effective space, volume, rigidity order\<close>

definition capEfficiency :: "rat \<Rightarrow> BootIrregularity \<Rightarrow> rat" where
  "capEfficiency e irr =
     (case severity irr of
        MINOR \<Rightarrow> min e (80 / 100)
      | MODERATE \<Rightarrow> min e (75 / 100)
      | SIGNIFICANT \<Rightarrow> min e (70 / 100))"

definition calculateEffectiveBootSpace :: "Vehicle \<Rightarrow> BootSpace" where
  "calculateEffectiveBootSpace vehicle =
     (let bm = bootMeasurements vehicle;
          baseVolume = length_dim bm * width bm * height bm;
          ef = foldl capEfficiency (85 / 100) (bootIrregularities vehicle)
      in \<lparr> length_dim = length_dim bm, width = width bm, height = height bm,
           openingWidth = openingWidth bm, openingHeight = openingHeight bm,
           volume = baseVolume, efficiencyFactor = ef,
           hasOpeningConstraints = (truthy (openingWidth bm) \<or> truthy (openingHeight bm)) \<rparr>)"

definition calculateItemVolume :: "ItemDimensions \<Rightarrow> int" where
  "calculateItemVolume d = length_dim d * width d * height d"

fun getRigidityOrder :: "ItemRigidity \<Rightarrow> int" where
  "getRigidityOrder COMPLETELY_RIGID = 0"
| "getRigidityOrder RIGID = 1"
| "getRigidityOrder SEMI_RIGID = 2"
| "getRigidityOrder FLEXIBLE = 3"
| "getRigidityOrder VERY_FLEXIBLE = 4"

section \<open>Orientations\<close>

definition all_orientations :: "ItemDimensions \<Rightarrow> ItemDimensions list" where
  "all_orientations d =
     (let l = length_dim d; w = width d; h = height d in
      [ \<lparr> length_dim = l, width = w, height = h \<rparr>,
        \<lparr> length_dim = w, width = l, height = h \<rparr>,
        \<lparr> length_dim = h, width = w, height = l \<rparr>,
        \<lparr> length_dim = l, width = h, height = w \<rparr>,
        \<lparr> length_dim = w, width = h, height = l \<rparr>,
        \<lparr> length_dim = h, width = l, height = w \<rparr> ])"

text \<open>
  The flat filter is \<^verbatim>\<open>o.height <= Math.max(length, width) * 0.6\<close>, with the length
  and width of the dimensions given; the literal is the double nearest to \<open>6 / 10\<close> and
  the product is a double.
\<close>

definition generateOrientations ::
  "ItemDimensions \<Rightarrow> OrientationConstraints \<Rightarrow> ItemDimensions list" where
  "generateOrientations d constraints =
     (case constraints of
        upright_only \<Rightarrow>
          [ \<lparr> length_dim = length_dim d, width = width d, height = height d \<rparr> ]
      | flat_only \<Rightarrow>
          filter (\<lambda>o'. of_int (height o') \<le> fl (of_int (max (length_dim d) (width d)) * fl (6 / 10)))
            (all_orientations d)
      | any_orientation \<Rightarrow> all_orientations d)"

section \<open>Opening access\<close>

text \<open>
  \<^verbatim>\<open>bootSpace.openingWidth ? bootSpace.openingWidth - clearanceMargin : bootSpace.width\<close>,
  and the same for the height; both functions that test the opening compute these two.
\<close>

definition effectiveOpeningWidth :: "BootSpace \<Rightarrow> int \<Rightarrow> int" where
  "effectiveOpeningWidth bootSpace clearanceMargin =
     (case openingWidth bootSpace of
        Some ow \<Rightarrow> if ow \<noteq> 0 then ow - clearanceMargin else width bootSpace
      | None \<Rightarrow> width bootSpace)"

definition effectiveOpeningHeight :: "BootSpace \<Rightarrow> int \<Rightarrow> int" where
  "effectiveOpeningHeight bootSpace clearanceMargin =
     (case openingHeight bootSpace of
        Some oh \<Rightarrow> if oh \<noteq> 0 then oh - clearanceMargin else height bootSpace
      | None \<Rightarrow> height bootSpace)"

definition canPassThroughOpening :: "ItemDimensions \<Rightarrow> BootSpace \<Rightarrow> int \<Rightarrow> bool" where
  "canPassThroughOpening orient bootSpace clearanceMargin =
     (if \<not> hasOpeningConstraints bootSpace then True
      else width orient \<le> effectiveOpeningWidth bootSpace clearanceMargin \<and>
           height orient \<le> effectiveOpeningHeight bootSpace clearanceMargin)"

definition filterOrientationsForOpening ::
  "ItemDimensions list \<Rightarrow> BootSpace \<Rightarrow> ItemDimensions list" where
  "filterOrientationsForOpening os bootSpace =
     (if \<not> hasOpeningConstraints bootSpace then os
      else filter (\<lambda>orient. canPassThroughOpening orient bootSpace 20) os)"

section \<open>Position search\<close>

definition fitsInSpace :: "ItemDimensions \<Rightarrow> 'a ItemDimensions_scheme \<Rightarrow> Position \<Rightarrow> bool" where
  "fitsInSpace orient space pos =
     (x_pos pos + length_dim orient \<le> length_dim space \<and>
      y_pos pos + width orient \<le> width space \<and>
      z_pos pos + height orient \<le> height space)"

definition overlap :: "ItemDimensions \<Rightarrow> Position \<Rightarrow> PackedItem \<Rightarrow> bool" where
  "overlap orient pos packed =
     (x_pos pos < x_pos (position packed) + length_dim (orientation packed) \<and>
      x_pos pos + length_dim orient > x_pos (position packed) \<and>
      y_pos pos < y_pos (position packed) + width (orientation packed) \<and>
      y_pos pos + width orient > y_pos (position packed) \<and>
      z_pos pos < z_pos (position packed) + height (orientation packed) \<and>
      z_pos pos + height orient > z_pos (position packed))"

fun hasCollision :: "ItemDimensions \<Rightarrow> Position \<Rightarrow> PackedItem list \<Rightarrow> bool" where
  "hasCollision orient pos [] = False"
| "hasCollision orient pos (packed # rest) =
     (if overlap orient pos packed then True else hasCollision orient pos rest)"

definition stepSize :: int where
  "stepSize = 50"

text \<open>The loop nest of \<^verbatim>\<open>findBestPosition\<close>, the innermost loop first.\<close>

function scan_x ::
  "ItemDimensions \<Rightarrow> BootSpace \<Rightarrow> PackedItem list \<Rightarrow> int \<Rightarrow> int \<Rightarrow> int \<Rightarrow> Position option" where
  "scan_x orient bootSpace packed z y x =
     (if x \<ge> 0 then
        (let pos = \<lparr> x_pos = x, y_pos = y, z_pos = z \<rparr> in
         if fitsInSpace orient bootSpace pos \<and> \<not> hasCollision orient pos packed
         then Some pos
         else scan_x orient bootSpace packed z y (x - stepSize))
      else None)"
  by pat_completeness auto
termination
  by (relation "measure (\<lambda>(orient, bootSpace, packed, z, y, x). nat (x + 1))")
     (auto simp: stepSize_def)

function scan_y ::
  "ItemDimensions \<Rightarrow> BootSpace \<Rightarrow> PackedItem list \<Rightarrow> int \<Rightarrow> int \<Rightarrow> Position option" where
  "scan_y orient bootSpace packed z y =
     (if y \<le> width bootSpace - width orient then
        (case scan_x orient bootSpace packed z y (length_dim bootSpace - length_dim orient) of
           Some pos \<Rightarrow> Some pos
         | None \<Rightarrow> scan_y orient bootSpace packed z (y + stepSize))
      else None)"
  by pat_completeness auto
termination
  by (relation "measure (\<lambda>(orient, bootSpace, packed, z, y).
        nat (width bootSpace - width orient - y + 1))")
     (auto simp: stepSize_def)

function scan_z ::
  "ItemDimensions \<Rightarrow> BootSpace \<Rightarrow> PackedItem list \<Rightarrow> int \<Rightarrow> Position option" where
  "scan_z orient bootSpace packed z =
     (if z \<le> height bootSpace - height orient then
        (case scan_y orient bootSpace packed z 0 of
           Some pos \<Rightarrow> Some pos
         | None \<Rightarrow> scan_z orient bootSpace packed (z + stepSize))
      else None)"
  by pat_completeness auto
termination
  by (relation "measure (\<lambda>(orient, bootSpace, packed, z).
        nat (height bootSpace - height orient - z + 1))")
     (auto simp: stepSize_def)

definition findBestPosition ::
  "ItemDimensions \<Rightarrow> BootSpace \<Rightarrow> PackedItem list \<Rightarrow> Position option" where
  "findBestPosition orient bootSpace packed = scan_z orient bootSpace packed 0"

section \<open>Compression\<close>

text \<open>
  The object literal \<^verbatim>\<open>compressedDimensions\<close> that both compression functions build:
  \<^verbatim>\<open>Math.round(item.dimensions.length * compressionFactor)\<close> and the same for width and
  height, each product a double.
\<close>

definition compressDimensions :: "ItemDimensions \<Rightarrow> rat \<Rightarrow> ItemDimensions" where
  "compressDimensions d compressionFactor =
     \<lparr> length_dim = Math_round (fl (of_int (length_dim d) * compressionFactor)),
       width = Math_round (fl (of_int (width d) * compressionFactor)),
       height = Math_round (fl (of_int (height d) * compressionFactor)) \<rparr>"

text \<open>The inner loop of \<^verbatim>\<open>applyCompressionForOpening\<close>: the first orientation that clears the opening.\<close>

fun firstThroughOpening :: "ItemDimensions list \<Rightarrow> int \<Rightarrow> int \<Rightarrow> ItemDimensions option" where
  "firstThroughOpening [] eow eoh = None"
| "firstThroughOpening (orient # rest) eow eoh =
     (if width orient \<le> eow \<and> height orient \<le> eoh then Some orient
      else firstThroughOpening rest eow eoh)"

function openingCompressionLoop ::
  "'a Item_scheme \<Rightarrow> BootSpace \<Rightarrow> int \<Rightarrow> (ItemDimensions \<times> rat) option" where
  "openingCompressionLoop it bootSpace compression =
     (if compression \<le> compressibility it then
        (let maxCompression = fl (of_int (compressibility it) / 100);
             actualCompression = min (fl (of_int compression / 100)) maxCompression;
             compressionFactor = fl (1 - actualCompression);
             compressedDimensions = compressDimensions (dimensions it) compressionFactor;
             compressedOrientations =
               generateOrientations compressedDimensions (orientationConstraints it)
         in case firstThroughOpening compressedOrientations
                   (effectiveOpeningWidth bootSpace 20) (effectiveOpeningHeight bootSpace 20) of
              Some orient \<Rightarrow> Some (orient, fl (actualCompression * 100))
            | None \<Rightarrow> openingCompressionLoop it bootSpace (compression + 5))
      else None)"
  by pat_completeness auto
termination
  by (relation "measure (\<lambda>(it, bootSpace, compression).
        nat (compressibility it - compression + 1))") auto

definition applyCompressionForOpening ::
  "'a Item_scheme \<Rightarrow> BootSpace \<Rightarrow> (ItemDimensions \<times> rat) option" where
  "applyCompressionForOpening it bootSpace =
     (if \<not> hasOpeningConstraints bootSpace \<or> compressibility it \<le> 0 then None
      else openingCompressionLoop it bootSpace 5)"

definition applyCompression :: "'a Item_scheme \<Rightarrow> int \<Rightarrow> ItemDimensions \<times> rat" where
  "applyCompression it compressionNeeded =
     (let maxCompression = fl (of_int (compressibility it) / 100);
          actualCompression = min (fl (of_int compressionNeeded / 100)) maxCompression
      in if actualCompression \<le> 0 then (dimensions it, 0)
         else (let compressionFactor = fl (1 - actualCompression)
               in (compressDimensions (dimensions it) compressionFactor,
                   fl (actualCompression * 100))))"

section \<open>Preprocessing and sort\<close>

definition withMetrics :: "Item \<Rightarrow> ItemWithMetrics" where
  "withMetrics it =
     Item.extend it
       (ItemWithMetrics.fields (calculateItemVolume (dimensions it))
          (getRigidityOrder (rigidity it))
          (generateOrientations (dimensions it) (orientationConstraints it)))"

text \<open>The comparator given to \<^verbatim>\<open>sort\<close>: volume descending, then rigidity order ascending.\<close>

definition compareItems :: "ItemWithMetrics \<Rightarrow> ItemWithMetrics \<Rightarrow> int" where
  "compareItems a b =
     (if volume_item b \<noteq> volume_item a then volume_item b - volume_item a
      else rigidityOrder a - rigidityOrder b)"

text \<open>
  \<^verbatim>\<open>Array.prototype.sort\<close> is stable, and the comparator is a total preorder on integer
  keys, so the sorted array is the stable arrangement, computed here by insertion.
\<close>

fun insert_sorted :: "('a \<Rightarrow> 'a \<Rightarrow> int) \<Rightarrow> 'a \<Rightarrow> 'a list \<Rightarrow> 'a list" where
  "insert_sorted cmp a [] = [a]"
| "insert_sorted cmp a (b # bs) =
     (if cmp a b \<le> 0 then a # b # bs else b # insert_sorted cmp a bs)"

definition sort_with :: "('a \<Rightarrow> 'a \<Rightarrow> int) \<Rightarrow> 'a list \<Rightarrow> 'a list" where
  "sort_with cmp as = foldr (insert_sorted cmp) as []"

definition preprocessItems :: "Item list \<Rightarrow> ItemWithMetrics list" where
  "preprocessItems items = sort_with compareItems (map withMetrics items)"

section \<open>The packing orchestrator\<close>

text \<open>The local variables that the main loop of \<^verbatim>\<open>packItems\<close> updates.\<close>

record PackLoop =
  packedItems_acc :: "PackedItem list"
  unpackedItems_acc :: "ItemWithMetrics list"
  totalVolumeUsed :: int
  itemsRejectedByOpening :: nat
  itemsRequiringCompression :: nat

text \<open>\<^verbatim>\<open>for (const orientation of ...)\<close> with \<^verbatim>\<open>findBestPosition\<close>, leaving at the first position.\<close>

fun tryOrientations ::
  "ItemDimensions list \<Rightarrow> BootSpace \<Rightarrow> PackedItem list \<Rightarrow> (ItemDimensions \<times> Position) option" where
  "tryOrientations [] bootSpace packed = None"
| "tryOrientations (orient # rest) bootSpace packed =
     (case findBestPosition orient bootSpace packed of
        Some pos \<Rightarrow> Some (orient, pos)
      | None \<Rightarrow> tryOrientations rest bootSpace packed)"

function spaceCompressionLoop ::
  "ItemWithMetrics \<Rightarrow> BootSpace \<Rightarrow> PackedItem list \<Rightarrow> int \<Rightarrow>
     (ItemDimensions \<times> Position \<times> rat) option" where
  "spaceCompressionLoop it bootSpace packed compression =
     (if compression \<le> compressibility it then
        (let (compressedDims, applied) = applyCompression it compression;
             compressedOrientations =
               generateOrientations compressedDims (orientationConstraints it);
             validCompressedOrientations =
               filterOrientationsForOpening compressedOrientations bootSpace
         in case tryOrientations validCompressedOrientations bootSpace packed of
              Some (orient, pos) \<Rightarrow> Some (orient, pos, applied)
            | None \<Rightarrow> spaceCompressionLoop it bootSpace packed (compression + 5))
      else None)"
  by pat_completeness auto
termination
  by (relation "measure (\<lambda>(it, bootSpace, packed, compression).
        nat (compressibility it - compression + 1))") auto

definition pushPacked ::
  "PackLoop \<Rightarrow> ItemWithMetrics \<Rightarrow> Position \<Rightarrow> ItemDimensions \<Rightarrow> bool \<Rightarrow> rat \<Rightarrow> PackLoop" where
  "pushPacked st it pos orient c applied =
     st \<lparr> packedItems_acc := packedItems_acc st @
            [\<lparr> item = it, position = pos, orientation = orient,
               compressed = c, compressionApplied = applied \<rparr>],
          totalVolumeUsed := totalVolumeUsed st + calculateItemVolume orient \<rparr>"

text \<open>One iteration of \<^verbatim>\<open>for (const itemWithMetrics of processedItems)\<close>.\<close>

definition packStep :: "BootSpace \<Rightarrow> PackLoop \<Rightarrow> ItemWithMetrics \<Rightarrow> PackLoop" where
  "packStep bootSpace st it =
     (let validOrientations = filterOrientationsForOpening (orientations it) bootSpace in
      if validOrientations = [] \<and> hasOpeningConstraints bootSpace then
        (case (if compressibility it > 0 then
                 (case applyCompressionForOpening it bootSpace of
                    Some (dims, applied) \<Rightarrow>
                      (case findBestPosition dims bootSpace (packedItems_acc st) of
                         Some pos \<Rightarrow> Some (dims, pos, applied)
                       | None \<Rightarrow> None)
                  | None \<Rightarrow> None)
               else None) of
           Some (dims, pos, applied) \<Rightarrow>
             (pushPacked st it pos dims True applied)
               \<lparr> itemsRequiringCompression := itemsRequiringCompression st + 1 \<rparr>
         | None \<Rightarrow>
             st \<lparr> unpackedItems_acc := unpackedItems_acc st @ [it],
                  itemsRejectedByOpening := itemsRejectedByOpening st + 1 \<rparr>)
      else
        (case tryOrientations validOrientations bootSpace (packedItems_acc st) of
           Some (orient, pos) \<Rightarrow> pushPacked st it pos orient False 0
         | None \<Rightarrow>
             (case (if compressibility it > 0
                    then spaceCompressionLoop it bootSpace (packedItems_acc st) 5
                    else None) of
                Some (orient, pos, applied) \<Rightarrow>
                  (pushPacked st it pos orient True applied)
                    \<lparr> itemsRequiringCompression := itemsRequiringCompression st + 1 \<rparr>
              | None \<Rightarrow> st \<lparr> unpackedItems_acc := unpackedItems_acc st @ [it] \<rparr>)))"

definition initialLoop :: PackLoop where
  "initialLoop =
     \<lparr> packedItems_acc = [], unpackedItems_acc = [], totalVolumeUsed = 0,
       itemsRejectedByOpening = 0, itemsRequiringCompression = 0 \<rparr>"

subsection \<open>Warnings\<close>

definition digit_char :: "nat \<Rightarrow> char" where
  "digit_char n = ''0123456789'' ! n"

function show_nat :: "nat \<Rightarrow> string" where
  "show_nat n = (if n < 10 then [digit_char n] else show_nat (n div 10) @ [digit_char (n mod 10)])"
  by pat_completeness auto
termination
  by (relation "measure id") auto

definition tightClearance :: "BootSpace \<Rightarrow> ItemWithMetrics \<Rightarrow> bool" where
  "tightClearance bootSpace unpackedItem =
     (truthy (openingWidth bootSpace) \<and> truthy (openingHeight bootSpace) \<and>
      (let minDimension = min (width (dimensions unpackedItem)) (height (dimensions unpackedItem));
           maxOpening = max (or_else (openingWidth bootSpace) 0) (or_else (openingHeight bootSpace) 0)
       in minDimension \<le> maxOpening + 30 \<and> minDimension > maxOpening))"

definition wouldFitWithMinimalClearance :: "BootSpace \<Rightarrow> ItemWithMetrics \<Rightarrow> bool" where
  "wouldFitWithMinimalClearance bootSpace unpackedItem =
     (truthy (openingWidth bootSpace) \<and> truthy (openingHeight bootSpace) \<and>
      (let minimalClearance = 5;
           effectiveOpeningWidthMinimal = or_else (openingWidth bootSpace) 0 - minimalClearance;
           effectiveOpeningHeightMinimal = or_else (openingHeight bootSpace) 0 - minimalClearance
       in list_ex (\<lambda>orient. width orient \<le> effectiveOpeningWidthMinimal \<and>
                            height orient \<le> effectiveOpeningHeightMinimal)
            (generateOrientations (dimensions unpackedItem) (orientationConstraints unpackedItem))))"

definition tightClearanceWarning :: string where
  "tightClearanceWarning =
     ''Some items require tight clearance margins that may be impractical in real-world use''"

definition irregularityWarnings :: "Vehicle \<Rightarrow> string list" where
  "irregularityWarnings vehicle =
     (if length (bootIrregularities vehicle) > 0 \<and>
         length (filter (\<lambda>irr. severity irr = SIGNIFICANT) (bootIrregularities vehicle)) > 0
      then [''Boot has significant irregularities that may affect actual packing capacity'']
      else [])"

definition openingWarnings :: "BootSpace \<Rightarrow> PackLoop \<Rightarrow> string list" where
  "openingWarnings bootSpace st =
     (if hasOpeningConstraints bootSpace then
        (if itemsRejectedByOpening st > 0
         then [show_nat (itemsRejectedByOpening st) @
               '' item(s) could not fit through the boot opening despite fitting in the boot space'']
         else []) @
        (if itemsRequiringCompression st > 0
         then [show_nat (itemsRequiringCompression st) @
               '' item(s) required compression to fit through the boot opening'']
         else []) @
        (let openingArea = or_else (openingWidth bootSpace) (width bootSpace) *
                           or_else (openingHeight bootSpace) (height bootSpace);
             bootCrossSection = width bootSpace * height bootSpace
         in if of_int openingArea < fl (of_int bootCrossSection * fl (6 / 10))
            then [''Boot opening dimensions significantly limit packing capacity compared to internal space'']
            else []) @
        (if length (packedItems_acc st) > 1
         then [''Consider packing order - items placed deeper in the boot may be harder to access'']
         else []) @
        (if list_ex (tightClearance bootSpace) (unpackedItems_acc st)
         then [tightClearanceWarning] else []) @
        (if list_ex (wouldFitWithMinimalClearance bootSpace) (unpackedItems_acc st)
         then [tightClearanceWarning] else [])
      else [])"

subsection \<open>packItems\<close>

text \<open>
  \<^verbatim>\<open>Math.min((totalVolumeUsed / effectiveBootVolume) * 100, 100)\<close>. With a zero effective
  volume the quotient is an infinity or NaN: \<^verbatim>\<open>Math.min(Infinity, 100)\<close> is 100, the
  other two cases are not finite numbers.
\<close>

definition utilization :: "int \<Rightarrow> rat \<Rightarrow> rat option" where
  "utilization used effectiveBootVolume =
     (if effectiveBootVolume = 0 then (if used > 0 then Some 100 else None)
      else Some (min ((of_int used / effectiveBootVolume) * 100) 100))"

definition packLoop :: "BootSpace \<Rightarrow> ItemWithMetrics list \<Rightarrow> PackLoop" where
  "packLoop bootSpace processedItems = foldl (packStep bootSpace) initialLoop processedItems"

definition packItems :: "Vehicle \<Rightarrow> Item list \<Rightarrow> PackingResult" where
  "packItems vehicle items =
     (let bootSpace = calculateEffectiveBootSpace vehicle;
          processedItems = preprocessItems items;
          effectiveBootVolume = of_int (volume bootSpace) * efficiencyFactor bootSpace;
          st = packLoop bootSpace processedItems
      in \<lparr> packedItems = packedItems_acc st,
           unpackedItems = unpackedItems_acc st,
           volumeUtilization = utilization (totalVolumeUsed st) effectiveBootVolume,
           bootSpaceUsed = totalVolumeUsed st,
           bootSpaceAvailable = effectiveBootVolume,
           cabinOverflowSuggested = filter cabinSuitable (unpackedItems_acc st),
           warnings = irregularityWarnings vehicle @ openingWarnings bootSpace st \<rparr>)"

section \<open>Specification vocabulary\<close>


text \<open>
  The scan order in the words of the specification: a grid of step \<open>stepSize\<close>, the
  length axis from the far end \<open>length - orientation length\<close> down to 0, the width and
  height axes from 0 up; height outermost, then width, then length.
\<close>

definition grid_down :: "int \<Rightarrow> int list" where
  "grid_down start = map (\<lambda>k. start - stepSize * int k) [0 ..< nat (start div stepSize + 1)]"

definition grid_up :: "int \<Rightarrow> int \<Rightarrow> int list" where
  "grid_up first limit =
     map (\<lambda>k. first + stepSize * int k) [0 ..< nat ((limit - first) div stepSize + 1)]"

definition scanOrder :: "ItemDimensions \<Rightarrow> BootSpace \<Rightarrow> Position list" where
  "scanOrder orient bootSpace =
     [ \<lparr> x_pos = x, y_pos = y, z_pos = z \<rparr>.
         z \<leftarrow> grid_up 0 (height bootSpace - height orient),
         y \<leftarrow> grid_up 0 (width bootSpace - width orient),
         x \<leftarrow> grid_down (length_dim bootSpace - length_dim orient) ]"

text \<open>
  What the code yields at the compression level \<open>pct\<close>: the orientations of the
  dimensions that \<^verbatim>\<open>applyCompression\<close> returns, and the percentage it returns.
\<close>

definition compressedAt :: "'a Item_scheme \<Rightarrow> int \<Rightarrow> ItemDimensions list" where
  "compressedAt it pct =
     generateOrientations (fst (applyCompression it pct)) (orientationConstraints it)"

definition appliedAt :: "'a Item_scheme \<Rightarrow> int \<Rightarrow> rat" where
  "appliedAt it pct = snd (applyCompression it pct)"

text \<open>
  The two outcomes of one iteration of the main loop: the item is appended to the packed
  list at a position the search returned for the boxes packed so far, or it is appended
  to the unpacked list.
\<close>

definition placementOk :: "ItemWithMetrics \<Rightarrow> ItemDimensions \<Rightarrow> bool \<Rightarrow> rat \<Rightarrow> bool" where
  "placementOk it orient c applied =
     (if c then (\<exists>k \<in> {5 .. compressibility it}. 5 dvd k \<and> applied = appliedAt it k \<and>
                   orient \<in> set (compressedAt it k))
      else applied = 0 \<and> orient \<in> set (orientations it))"

definition placed ::
  "BootSpace \<Rightarrow> PackLoop \<Rightarrow> ItemWithMetrics \<Rightarrow> PackLoop \<Rightarrow> bool" where
  "placed bootSpace st it st' =
     (\<exists>orient pos c applied.
        findBestPosition orient bootSpace (packedItems_acc st) = Some pos \<and>
        placementOk it orient c applied \<and>
        packedItems_acc st' = packedItems_acc st @
          [\<lparr> item = it, position = pos, orientation = orient,
             compressed = c, compressionApplied = applied \<rparr>] \<and>
        unpackedItems_acc st' = unpackedItems_acc st \<and>
        totalVolumeUsed st' = totalVolumeUsed st + calculateItemVolume orient)"

definition rejected :: "PackLoop \<Rightarrow> ItemWithMetrics \<Rightarrow> PackLoop \<Rightarrow> bool" where
  "rejected st it st' =
     (packedItems_acc st' = packedItems_acc st \<and>
      unpackedItems_acc st' = unpackedItems_acc st @ [it] \<and>
      totalVolumeUsed st' = totalVolumeUsed st)"





text \<open>
  An integer is a nearest integer of a rational when they differ by at most one half;
  \<open>scaledBy d factor d'\<close>: each dimension of \<open>d'\<close> is a nearest integer of the
  dimension of \<open>d\<close> multiplied by the one \<open>factor\<close>.
\<close>

definition isNearestInt :: "int \<Rightarrow> rat \<Rightarrow> bool" where
  "isNearestInt n q = (\<bar>of_int n - q\<bar> \<le> 1 / 2)"

definition scaledBy :: "ItemDimensions \<Rightarrow> rat \<Rightarrow> ItemDimensions \<Rightarrow> bool" where
  "scaledBy d factor d' =
     (isNearestInt (length_dim d') (of_int (length_dim d) * factor) \<and>
      isNearestInt (width d') (of_int (width d) * factor) \<and>
      isNearestInt (height d') (of_int (height d) * factor))"

text \<open>Dimensions of at most \<open>10 ^ 12\<close> millimetres in absolute value.\<close>

definition boundedDims :: "ItemDimensions \<Rightarrow> bool" where
  "boundedDims d =
     (\<bar>length_dim d\<bar> \<le> 10 ^ 12 \<and> \<bar>width d\<bar> \<le> 10 ^ 12 \<and> \<bar>height d\<bar> \<le> 10 ^ 12)"

text \<open>What the main loop recorded for a packed item agrees with how it was placed.\<close>

definition placementRecorded :: "PackedItem \<Rightarrow> bool" where
  "placementRecorded p =
     placementOk (item p) (orientation p) (compressed p) (compressionApplied p)"

text \<open>The compression levels tried for a compressibility: the multiples of 5 from 5 up to it.\<close>

definition compressionLevels :: "int \<Rightarrow> int list" where
  "compressionLevels c = filter (\<lambda>k. 5 dvd k) [5 .. c]"



section \<open>Test data\<close>

text \<open>
  Values on which the model is run. \<open>mockVehicle\<close>, \<open>smallRigidItem\<close>,
  \<open>flexibleItem\<close> and \<open>vehicleWithSmallOpening\<close> are those of
  \<^verbatim>\<open>packingAlgorithm.test.ts\<close>; the others are a boot too short for the duffel bag,
  a panel that must stay upright, a cube that must lie flat, a boot whose opening
  dimensions are declared as 0, a boot with a square opening of 247 and a foam cube of
  side 325, and items with a compressibility outside the validated range from 0 to 30.
\<close>

definition mockVehicle :: Vehicle where
  "mockVehicle =
     \<lparr> makeModel = ''Toyota Corolla 2023'', categoryTags = [''sedan'', ''compact''],
       bootMeasurements = \<lparr> length_dim = 1000, width = 1000, height = 500,
                            openingWidth = None, openingHeight = None \<rparr>,
       bootIrregularities = [],
       cabinOverflowSpaces =
         \<lparr> rearFloor = Some \<lparr> length_dim = 300, width = 400, height = 200 \<rparr>,
           rearSeatGap = None, frontPassengerFloor = None \<rparr>,
       measurementConfidence = verified, submissionCount = 5,
       lastUpdated = ''2024-01-15'', hide = None \<rparr>"

definition smallRigidItem :: Item where
  "smallRigidItem =
     \<lparr> name = ''Small Suitcase'',
       dimensions = \<lparr> length_dim = 400, width = 300, height = 200 \<rparr>,
       weight = 5, rigidity = RIGID, category = luggage, cabinSuitable = True,
       compressibility = 0, stackable = True, orientationConstraints = any_orientation,
       customItem = False \<rparr>"


definition flexibleItem :: Item where
  "flexibleItem =
     \<lparr> name = ''Duffel Bag'',
       dimensions = \<lparr> length_dim = 600, width = 300, height = 300 \<rparr>,
       weight = 8, rigidity = FLEXIBLE, category = luggage, cabinSuitable = True,
       compressibility = 20, stackable = True, orientationConstraints = any_orientation,
       customItem = False \<rparr>"

definition tightVehicle :: Vehicle where
  "tightVehicle = mockVehicle \<lparr> bootMeasurements :=
     \<lparr> length_dim = 580, width = 350, height = 350,
       openingWidth = None, openingHeight = None \<rparr> \<rparr>"

definition vehicleWithSmallOpening :: Vehicle where
  "vehicleWithSmallOpening = mockVehicle \<lparr> bootMeasurements :=
     \<lparr> length_dim = 1000, width = 1000, height = 500,
       openingWidth = Some 800, openingHeight = Some 400 \<rparr> \<rparr>"


definition flatCube :: Item where
  "flatCube =
     \<lparr> name = ''Flat Cube'',
       dimensions = \<lparr> length_dim = 100, width = 100, height = 100 \<rparr>,
       weight = 2, rigidity = FLEXIBLE, category = custom, cabinSuitable = False,
       compressibility = 30, stackable = True, orientationConstraints = flat_only,
       customItem = True \<rparr>"

definition overCompressibleCube :: Item where
  "overCompressibleCube = flatCube \<lparr> compressibility := 100 \<rparr>"




definition negativeCompressibilityItem :: Item where
  "negativeCompressibilityItem = smallRigidItem \<lparr> compressibility := - 5 \<rparr>"

definition foamRoll :: Item where
  "foamRoll =
     \<lparr> name = ''Foam Roll'',
       dimensions = \<lparr> length_dim = 2200, width = 100, height = 100 \<rparr>,
       weight = 3, rigidity = VERY_FLEXIBLE, category = custom, cabinSuitable = False,
       compressibility = 55, stackable = True, orientationConstraints = any_orientation,
       customItem = True \<rparr>"

definition hugeBar :: Item where
  "hugeBar = flexibleItem \<lparr> dimensions :=
     \<lparr> length_dim = 9007199254740989, width = 300, height = 300 \<rparr> \<rparr>"

section \<open>Double rounding: properties\<close>

lemma pow2_powi: "pow2 e = 2 powi e"
  by (simp add: pow2_def power_int_def field_simps)

lemma pow2_pos: "0 < pow2 e"
  by (simp add: pow2_powi)

lemma pow2_add: "pow2 (a + b) = pow2 a * pow2 b"
  by (simp add: pow2_powi power_int_add)

lemma pow2_mono: "a \<le> b \<Longrightarrow> pow2 a \<le> pow2 b"
  by (simp add: pow2_powi power_int_increasing)

lemma pow2_less_cancel: "pow2 a < pow2 b \<Longrightarrow> a < b"
  using pow2_mono [of b a] by (cases "a < b") auto

lemma pow2_nat: "0 \<le> e \<Longrightarrow> pow2 e = of_int (2 ^ nat e)"
  by (simp add: pow2_def)

lemma bitlen_pow2_bounds:
  assumes "0 < a"
  shows "pow2 (bitlen a - 1) \<le> of_int a" and "of_int a < pow2 (bitlen a)"
proof -
  from assms have "bitlen a \<noteq> 0" by (simp add: bitlen_eq_zero_iff)
  with bitlen_nonneg [of a] have l: "1 \<le> bitlen a" by simp
  from bitlen_bounds [OF assms]
  have 1: "2 ^ nat (bitlen a - 1) \<le> a" and 2: "a < 2 ^ nat (bitlen a)" by simp_all
  from 1 have "rat_of_int (2 ^ nat (bitlen a - 1)) \<le> of_int a" by (simp only: of_int_le_iff)
  with l show "pow2 (bitlen a - 1) \<le> of_int a" by (simp add: pow2_nat)
  from 2 have "rat_of_int a < of_int (2 ^ nat (bitlen a))" by (simp only: of_int_less_iff)
  with l show "of_int a < pow2 (bitlen a)" by (simp add: pow2_nat)
qed

lemma exponent_bounds:
  assumes "0 < v"
  shows "pow2 (exponent v) \<le> v" and "v < pow2 (exponent v + 1)"
proof -
  obtain a b where q: "quotient_of v = (a, b)" by (cases "quotient_of v")
  then have b: "0 < b" and v: "v = of_int a / of_int b"
    using quotient_of_denom_pos quotient_of_div by auto
  with assms have a: "0 < a" by (simp add: zero_less_divide_iff)
  let ?e0 = "bitlen a - bitlen b"
  have "pow2 (?e0 - 1) * of_int b < pow2 (?e0 - 1) * pow2 (bitlen b)"
    using bitlen_pow2_bounds(2) [OF b] pow2_pos by simp
  also have "\<dots> = pow2 (bitlen a - 1)" by (simp add: pow2_add [symmetric])
  also have "\<dots> \<le> of_int a" by (rule bitlen_pow2_bounds(1) [OF a])
  finally have lo: "pow2 (?e0 - 1) < v" using b by (simp add: v pos_less_divide_eq)
  have "of_int a < pow2 (bitlen a)" by (rule bitlen_pow2_bounds(2) [OF a])
  also have "\<dots> = pow2 (?e0 + 1) * pow2 (bitlen b - 1)" by (simp add: pow2_add [symmetric])
  also have "\<dots> \<le> pow2 (?e0 + 1) * of_int b"
    using bitlen_pow2_bounds(1) [OF b] pow2_pos [of "?e0 + 1"] by simp
  finally have hi: "v < pow2 (?e0 + 1)" using b by (simp add: v pos_divide_less_eq)
  have e: "exponent v = (if pow2 ?e0 \<le> v then ?e0 else ?e0 - 1)"
    by (simp add: exponent_def q)
  show "pow2 (exponent v) \<le> v" using lo by (simp add: e)
  show "v < pow2 (exponent v + 1)" using hi by (auto simp add: e)
qed

lemma exponent_unique:
  assumes "pow2 e \<le> v" and "v < pow2 (e + 1)"
  shows "exponent v = e"
proof -
  from assms(1) pow2_pos [of e] have p: "0 < v" by simp
  from exponent_bounds [OF p] assms
  have 1: "pow2 (exponent v) < pow2 (e + 1)" and 2: "pow2 e < pow2 (exponent v + 1)"
    by simp_all
  from 1 have "exponent v < e + 1" by (rule pow2_less_cancel)
  moreover from 2 have "e < exponent v + 1" by (rule pow2_less_cancel)
  ultimately show ?thesis by simp
qed

lemma exponent_mono:
  assumes "0 < x" and "x \<le> y"
  shows "exponent x \<le> exponent y"
proof -
  from assms have y: "0 < y" by simp
  from exponent_bounds(1) [OF assms(1)] assms(2) exponent_bounds(2) [OF y]
  have "pow2 (exponent x) < pow2 (exponent y + 1)" by simp
  then have "exponent x < exponent y + 1" by (rule pow2_less_cancel)
  then show ?thesis by simp
qed

lemma round_half_even_cases:
  "round_half_even q = \<lfloor>q\<rfloor> \<and> q - of_int \<lfloor>q\<rfloor> \<le> 1 / 2 \<or>
   round_half_even q = \<lfloor>q\<rfloor> + 1 \<and> 1 / 2 \<le> q - of_int \<lfloor>q\<rfloor>"
  by (auto simp: round_half_even_def Let_def)

lemma round_half_even_error: "\<bar>of_int (round_half_even q) - q\<bar> \<le> 1 / 2"
proof -
  have "of_int \<lfloor>q\<rfloor> \<le> q" "q < of_int \<lfloor>q\<rfloor> + 1" by linarith+
  with round_half_even_cases [of q] show ?thesis by auto
qed

lemma round_half_even_ge: "of_int n \<le> q \<Longrightarrow> n \<le> round_half_even q"
proof -
  assume "of_int n \<le> q"
  then have "n \<le> \<lfloor>q\<rfloor>" by (simp add: le_floor_iff)
  with round_half_even_cases [of q] show ?thesis by auto
qed

lemma round_half_even_le: "q \<le> of_int n \<Longrightarrow> round_half_even q \<le> n"
proof -
  assume a: "q \<le> of_int n"
  then have f: "\<lfloor>q\<rfloor> \<le> n" by (simp add: floor_le_iff)
  show ?thesis
  proof (cases "\<lfloor>q\<rfloor> = n")
    case True
    with a have "q = of_int n" using of_int_floor_le [of q] by simp
    then show ?thesis by (simp add: round_half_even_def)
  next
    case False
    with f have "\<lfloor>q\<rfloor> + 1 \<le> n" by simp
    with round_half_even_cases [of q] show ?thesis by auto
  qed
qed

lemma round_half_even_mono:
  assumes "p \<le> q"
  shows "round_half_even p \<le> round_half_even q"
proof (cases "\<lfloor>p\<rfloor> = \<lfloor>q\<rfloor>")
  case True
  with assms show ?thesis by (auto simp: round_half_even_def Let_def)
next
  case False
  with assms have "\<lfloor>p\<rfloor> + 1 \<le> \<lfloor>q\<rfloor>" using floor_mono [of p q] by simp
  moreover have "round_half_even p \<le> \<lfloor>p\<rfloor> + 1" using round_half_even_cases [of p] by auto
  moreover have "\<lfloor>q\<rfloor> \<le> round_half_even q" using round_half_even_cases [of q] by auto
  ultimately show ?thesis by simp
qed

lemma pow2_split:
  "pow2 e = 2 ^ 52 * pow2 (e - 52)" "pow2 (e + 1) = 2 ^ 53 * pow2 (e - 52)"
proof -
  have "e = 52 + (e - 52)" by simp
  then have "pow2 e = pow2 (52 + (e - 52))" by (rule arg_cong)
  also have "\<dots> = pow2 52 * pow2 (e - 52)" by (rule pow2_add)
  also have "pow2 52 = 2 ^ 52" by (simp add: pow2_def)
  finally show "pow2 e = 2 ^ 52 * pow2 (e - 52)" .
  have "e + 1 = 53 + (e - 52)" by simp
  then have "pow2 (e + 1) = pow2 (53 + (e - 52))" by (rule arg_cong)
  also have "\<dots> = pow2 53 * pow2 (e - 52)" by (rule pow2_add)
  also have "pow2 53 = 2 ^ 53" by (simp add: pow2_def)
  finally show "pow2 (e + 1) = 2 ^ 53 * pow2 (e - 52)" .
qed

lemma fl_pos_eq:
  "0 < v \<Longrightarrow> fl v = of_int (round_half_even (v / pow2 (exponent v - 52))) * pow2 (exponent v - 52)"
  by (simp add: fl_def Let_def)

lemma scaled_bounds:
  assumes "0 < v"
  shows "2 ^ 52 \<le> v / pow2 (exponent v - 52)" and "v / pow2 (exponent v - 52) \<le> 2 ^ 53"
proof -
  let ?u = "pow2 (exponent v - 52)"
  have u: "0 < ?u" by (rule pow2_pos)
  have a: "pow2 (exponent v) = 2 ^ 52 * ?u" by (rule pow2_split)
  have b: "pow2 (exponent v + 1) = 2 ^ 53 * ?u" by (rule pow2_split)
  from exponent_bounds(1) [OF assms] have "2 ^ 52 * ?u \<le> v" by (simp only: a)
  with u show "2 ^ 52 \<le> v / ?u" by (simp add: pos_le_divide_eq)
  from exponent_bounds(2) [OF assms] have "v < 2 ^ 53 * ?u" by (simp only: b)
  with u show "v / ?u \<le> 2 ^ 53" by (simp add: pos_divide_le_eq)
qed

lemma fl_bounds:
  assumes "0 < v"
  shows "pow2 (exponent v) \<le> fl v" and "fl v \<le> pow2 (exponent v + 1)"
proof -
  let ?u = "pow2 (exponent v - 52)"
  let ?n = "round_half_even (v / ?u)"
  have u: "0 < ?u" by (rule pow2_pos)
  have a: "pow2 (exponent v) = 2 ^ 52 * ?u" by (rule pow2_split)
  have b: "pow2 (exponent v + 1) = 2 ^ 53 * ?u" by (rule pow2_split)
  from scaled_bounds(1) [OF assms] have "rat_of_int (2 ^ 52) \<le> v / ?u" by simp
  then have "2 ^ 52 \<le> ?n" by (rule round_half_even_ge)
  then have "rat_of_int (2 ^ 52) \<le> of_int ?n" by (simp only: of_int_le_iff)
  then have "2 ^ 52 * ?u \<le> of_int ?n * ?u" using u by simp
  then show "pow2 (exponent v) \<le> fl v" by (simp only: a fl_pos_eq [OF assms])
  from scaled_bounds(2) [OF assms] have "v / ?u \<le> rat_of_int (2 ^ 53)" by simp
  then have "?n \<le> 2 ^ 53" by (rule round_half_even_le)
  then have "of_int ?n \<le> rat_of_int (2 ^ 53)" by (simp only: of_int_le_iff)
  then have "of_int ?n * ?u \<le> 2 ^ 53 * ?u" using u by simp
  then show "fl v \<le> pow2 (exponent v + 1)" by (simp only: b fl_pos_eq [OF assms])
qed

lemma fl_pos: "0 < v \<Longrightarrow> 0 < fl v"
  using fl_bounds(1) [of v] pow2_pos [of "exponent v"] by simp

lemma fl_mono:
  assumes "0 < x" and "x \<le> y"
  shows "fl x \<le> fl y"
proof -
  from assms have y: "0 < y" by simp
  show ?thesis
  proof (cases "exponent x = exponent y")
    case True
    let ?u = "pow2 (exponent y - 52)"
    have u: "0 < ?u" by (rule pow2_pos)
    from assms(2) u have "x / ?u \<le> y / ?u" by (simp add: divide_right_mono)
    then have "round_half_even (x / ?u) \<le> round_half_even (y / ?u)"
      by (rule round_half_even_mono)
    then have "rat_of_int (round_half_even (x / ?u)) \<le> of_int (round_half_even (y / ?u))"
      by (simp only: of_int_le_iff)
    then have "of_int (round_half_even (x / ?u)) * ?u \<le> of_int (round_half_even (y / ?u)) * ?u"
      using u by simp
    then show ?thesis by (simp only: fl_pos_eq [OF assms(1)] fl_pos_eq [OF y] True)
  next
    case False
    with exponent_mono [OF assms] have "exponent x + 1 \<le> exponent y" by simp
    then have "pow2 (exponent x + 1) \<le> pow2 (exponent y)" by (rule pow2_mono)
    with fl_bounds(2) [OF assms(1)] fl_bounds(1) [OF y] show ?thesis by simp
  qed
qed

lemma fl_error_pos:
  assumes "0 < v"
  shows "\<bar>fl v - v\<bar> \<le> v / 2 ^ 53"
proof -
  let ?u = "pow2 (exponent v - 52)"
  let ?n = "round_half_even (v / ?u)"
  have u: "0 < ?u" by (rule pow2_pos)
  have a: "pow2 (exponent v) = 2 ^ 52 * ?u" by (rule pow2_split)
  have "fl v - v = (of_int ?n - v / ?u) * ?u"
    using u by (simp add: fl_pos_eq [OF assms] algebra_simps)
  then have "\<bar>fl v - v\<bar> = \<bar>of_int ?n - v / ?u\<bar> * ?u"
    using u by (simp add: abs_mult)
  also have "\<dots> \<le> (1 / 2) * ?u"
    using round_half_even_error [of "v / ?u"] u by (intro mult_right_mono) simp_all
  also have "\<dots> = pow2 (exponent v) / 2 ^ 53" by (simp add: a)
  also have "\<dots> \<le> v / 2 ^ 53"
    using exponent_bounds(1) [OF assms] by (simp add: divide_right_mono)
  finally show ?thesis .
qed

lemma fl_minus: "fl (- v) = - fl v"
  by (simp add: fl_def Let_def)

lemma fl_error: "\<bar>fl v - v\<bar> \<le> \<bar>v\<bar> / 2 ^ 53"
proof -
  consider "v = 0" | "0 < v" | "v < 0" by linarith
  then show ?thesis
  proof cases
    case 1
    then show ?thesis by (simp add: fl_def)
  next
    case 2
    with fl_error_pos [OF 2] show ?thesis by simp
  next
    case 3
    then have "0 < - v" by simp
    from fl_error_pos [OF this] have "\<bar>- fl v + v\<bar> \<le> - v / 2 ^ 53"
      by (simp add: fl_minus)
    moreover have "\<bar>- fl v + v\<bar> = \<bar>fl v - v\<bar>" by linarith
    ultimately show ?thesis using 3 by simp
  qed
qed

lemma fl_half: "fl (1 / 2) = 1 / 2"
  by code_simp

lemma fl_zero: "fl 0 = 0"
  by (simp add: fl_def)

lemma fl_half_le: "1 / 2 \<le> v \<Longrightarrow> 1 / 2 \<le> fl v"
  using fl_mono [of "1 / 2" v] by (simp add: fl_half)

lemma fl_le_half: "0 < v \<Longrightarrow> v \<le> 1 / 2 \<Longrightarrow> fl v \<le> 1 / 2"
  using fl_mono [of v "1 / 2"] by (simp add: fl_half)

text \<open>The nearest double in integer arithmetic, on the numerator and the denominator.\<close>

lemma round_half_even_frac:
  assumes "0 < den"
  shows "round_half_even (of_int num / of_int den) = round_frac num den"
proof -
  let ?q = "rat_of_int num / of_int den"
  from assms have d: "0 < rat_of_int den" by simp
  have f: "\<lfloor>?q\<rfloor> = num div den" by (rule floor_divide_of_int_eq)
  have "num = den * (num div den) + num mod den" by simp
  then have "rat_of_int num = of_int (den * (num div den) + num mod den)" by (rule arg_cong)
  then have "rat_of_int num = of_int den * of_int (num div den) + of_int (num mod den)"
    by (simp only: of_int_add of_int_mult)
  then have r: "?q - of_int (num div den) = of_int (num mod den) / of_int den"
    using d by (simp add: field_simps)
  have lt: "(rat_of_int (num mod den) / of_int den < 1 / 2) = (2 * (num mod den) < den)"
  proof -
    have "(rat_of_int (num mod den) / of_int den < 1 / 2) =
          (rat_of_int (2 * (num mod den)) < of_int den)"
      using d by (simp add: field_simps)
    then show ?thesis by (simp only: of_int_less_iff)
  qed
  have gt: "(1 / 2 < rat_of_int (num mod den) / of_int den) = (den < 2 * (num mod den))"
  proof -
    have "(1 / 2 < rat_of_int (num mod den) / of_int den) =
          (rat_of_int den < of_int (2 * (num mod den)))"
      using d by (simp add: field_simps)
    then show ?thesis by (simp only: of_int_less_iff)
  qed
  show ?thesis
    unfolding round_half_even_def round_frac_def Let_def f r lt gt ..
qed

lemma exponent_frac:
  assumes "quotient_of v = (a, b)"
  shows "exponent v = exponent_frac a b"
proof -
  from assms have b: "0 < b" and v: "v = of_int a / of_int b"
    using quotient_of_denom_pos quotient_of_div by auto
  from b have rb: "0 < rat_of_int b" by simp
  let ?e0 = "bitlen a - bitlen b"
  have c: "(pow2 ?e0 \<le> v) =
      (if 0 \<le> ?e0 then 2 ^ nat ?e0 * b \<le> a else b \<le> a * 2 ^ nat (- ?e0))"
  proof (cases "0 \<le> ?e0")
    case True
    have "(pow2 ?e0 \<le> v) = (rat_of_int (2 ^ nat ?e0 * b) \<le> of_int a)"
      using rb True by (simp add: pow2_def v pos_le_divide_eq)
    then show ?thesis using True by (simp only: of_int_le_iff if_True)
  next
    case False
    have "(pow2 ?e0 \<le> v) = (rat_of_int b \<le> of_int (a * 2 ^ nat (- ?e0)))"
      using rb False by (simp add: pow2_def v field_simps)
    then show ?thesis using False by (simp only: of_int_le_iff if_False)
  qed
  show ?thesis
    unfolding exponent_def exponent_frac_def assms Let_def prod.case c ..
qed

lemma quotient_of_abs:
  assumes "quotient_of v = (a, b)"
  shows "quotient_of \<bar>v\<bar> = (\<bar>a\<bar>, b)"
  using assms by (simp add: rat_abs_code)

lemma fl_code [code]:
  "fl v =
     (let (a, b) = quotient_of v in
      if a = 0 then 0
      else (let m = \<bar>a\<bar>; sh = exponent_frac m b - 52;
                n = (if sh < 0 then round_frac (m * 2 ^ nat (- sh)) b
                     else round_frac m (b * 2 ^ nat sh))
            in if sh < 0 then of_int (sgn a * n) / of_int (2 ^ nat (- sh))
               else of_int (sgn a * n * 2 ^ nat sh)))"
proof -
  obtain a b where q: "quotient_of v = (a, b)" by (cases "quotient_of v")
  then have b: "0 < b" and v: "v = of_int a / of_int b"
    using quotient_of_denom_pos quotient_of_div by auto
  from b have rb: "0 < rat_of_int b" by simp
  show ?thesis
  proof (cases "a = 0")
    case True
    then show ?thesis by (simp add: q v fl_def)
  next
    case False
    with rb have nz: "v \<noteq> 0" by (simp add: v)
    let ?m = "\<bar>a\<bar>"
    let ?sh = "exponent_frac ?m b - 52"
    have e: "exponent \<bar>v\<bar> = exponent_frac ?m b"
      by (rule exponent_frac) (rule quotient_of_abs [OF q])
    have av: "\<bar>v\<bar> = of_int ?m / of_int b" using rb by (simp add: v)
    have sg: "sgn v = of_int (sgn a)"
    proof -
      consider "0 < a" | "a < 0" using False by linarith
      then show ?thesis
      proof cases
        case 1
        with rb have "0 < v" by (simp add: v)
        with 1 show ?thesis by simp
      next
        case 2
        with rb have "v < 0" by (simp add: v divide_less_0_iff)
        with 2 show ?thesis by simp
      qed
    qed
    let ?n = "if ?sh < 0 then round_frac (?m * 2 ^ nat (- ?sh)) b
              else round_frac ?m (b * 2 ^ nat ?sh)"
    have rn: "round_half_even (\<bar>v\<bar> / pow2 ?sh) = ?n"
    proof (cases "?sh < 0")
      case True
      then have eq: "\<bar>v\<bar> / pow2 ?sh = of_int (?m * 2 ^ nat (- ?sh)) / of_int b"
        by (simp add: av pow2_def)
      have "round_half_even (\<bar>v\<bar> / pow2 ?sh) = round_frac (?m * 2 ^ nat (- ?sh)) b"
        unfolding eq by (rule round_half_even_frac [OF b])
      then show ?thesis using True by (simp only: if_True)
    next
      case False
      then have eq: "\<bar>v\<bar> / pow2 ?sh = of_int ?m / of_int (b * 2 ^ nat ?sh)"
        by (simp add: av pow2_def)
      from b have "0 < b * 2 ^ nat ?sh" by simp
      then have "round_half_even (\<bar>v\<bar> / pow2 ?sh) = round_frac ?m (b * 2 ^ nat ?sh)"
        unfolding eq by (rule round_half_even_frac)
      then show ?thesis using False by (simp only: if_False)
    qed
    have "fl v = of_int (sgn a) * (of_int ?n * pow2 ?sh)"
      using nz by (simp only: fl_def Let_def e rn sg if_False)
    also have "\<dots> = (if ?sh < 0 then of_int (sgn a * ?n) / of_int (2 ^ nat (- ?sh))
               else of_int (sgn a * ?n * 2 ^ nat ?sh))"
      by (simp add: pow2_def)
    finally show ?thesis using False by (simp only: q prod.case Let_def if_False)
  qed
qed

text \<open>The values that the number model names, and a compression of \<open>45 \<times> 85 \<times> 165\<close> by 30 percent.\<close>

lemma fl_examples:
  "fl (325 * fl (1 - fl (30 / 100))) = 8004444650209279 / 35184372088832"
  "Math_round (fl (325 * fl (1 - fl (30 / 100)))) = 227"
  "fl (fl (55 / 100) * 100) = 7740561859543041 / 140737488355328"
  "compressDimensions \<lparr> length_dim = 45, width = 85, height = 165 \<rparr> (fl (1 - fl (30 / 100))) =
     \<lparr> length_dim = 31, width = 59, height = 115 \<rparr>"
  by code_simp+

section \<open>Position search: properties\<close>

declare scan_x.simps [simp del] scan_y.simps [simp del] scan_z.simps [simp del]










lemma grid_examples:
  "grid_down 120 = [120, 70, 20]" "grid_down (- 1) = []"
  "grid_up 0 120 = [0, 50, 100]" "grid_up 0 (- 1) = []"
  by code_simp+

lemma scanOrder_example:
  "scanOrder \<lparr> length_dim = 940, width = 950, height = 450 \<rparr>
     (calculateEffectiveBootSpace mockVehicle) =
   [ \<lparr> x_pos = 60, y_pos = 0, z_pos = 0 \<rparr>, \<lparr> x_pos = 10, y_pos = 0, z_pos = 0 \<rparr>,
     \<lparr> x_pos = 60, y_pos = 50, z_pos = 0 \<rparr>, \<lparr> x_pos = 10, y_pos = 50, z_pos = 0 \<rparr>,
     \<lparr> x_pos = 60, y_pos = 0, z_pos = 50 \<rparr>, \<lparr> x_pos = 10, y_pos = 0, z_pos = 50 \<rparr>,
     \<lparr> x_pos = 60, y_pos = 50, z_pos = 50 \<rparr>, \<lparr> x_pos = 10, y_pos = 50, z_pos = 50 \<rparr> ]"
  by code_simp






section \<open>Compression search and the loop body: properties\<close>

declare openingCompressionLoop.simps [simp del] spaceCompressionLoop.simps [simp del]

lemma tryOrientations_Some:
  "tryOrientations os bootSpace packed = Some (orient, pos) \<Longrightarrow>
     orient \<in> set os \<and> findBestPosition orient bootSpace packed = Some pos"
  by (induction os) (auto split: option.splits)

lemma firstThroughOpening_Some:
  "firstThroughOpening os eow eoh = Some orient \<Longrightarrow>
     orient \<in> set os \<and> width orient \<le> eow \<and> height orient \<le> eoh"
  by (induction os) (auto split: if_splits)


lemma min_pct:
  assumes "0 < k" and "k \<le> c"
  shows "min (fl (of_int k / 100)) (fl (of_int c / 100)) = fl (of_int k / 100)"
proof -
  from assms have "0 < rat_of_int k / 100" "rat_of_int k / 100 \<le> of_int c / 100"
    by (simp_all add: divide_right_mono)
  then have "fl (of_int k / 100) \<le> fl (of_int c / 100)" by (rule fl_mono)
  then show ?thesis by (rule min_absorb1)
qed

lemma level_quotient_pos: "0 < k \<Longrightarrow> 0 < fl (rat_of_int k / 100)"
  by (rule fl_pos) simp

lemma applyCompression_level:
  assumes "0 < k" and "k \<le> compressibility it"
  shows "applyCompression it k =
       (compressDimensions (dimensions it) (fl (1 - fl (of_int k / 100))),
        fl (fl (of_int k / 100) * 100))"
proof -
  from level_quotient_pos [OF assms(1)] have "\<not> fl (rat_of_int k / 100) \<le> 0" by simp
  then show ?thesis by (simp add: applyCompression_def Let_def min_pct [OF assms])
qed

lemma compressedAt_level:
  "0 < k \<Longrightarrow> k \<le> compressibility it \<Longrightarrow>
     compressedAt it k =
       generateOrientations (compressDimensions (dimensions it) (fl (1 - fl (of_int k / 100))))
         (orientationConstraints it)"
  by (simp add: compressedAt_def applyCompression_level)

lemma appliedAt_level:
  "0 < k \<Longrightarrow> k \<le> compressibility it \<Longrightarrow> appliedAt it k = fl (fl (of_int k / 100) * 100)"
  by (simp add: appliedAt_def applyCompression_level)

text \<open>
  One iteration of each compression search. The search of
  \<^verbatim>\<open>applyCompressionForOpening\<close> computes its dimensions and its percentage in line, and
  they are those of \<^verbatim>\<open>applyCompression\<close> at the same level.
\<close>

lemma openingCompressionLoop_step:
  assumes "0 < c" and "c \<le> compressibility it"
  shows "openingCompressionLoop it bootSpace c =
     (case firstThroughOpening (compressedAt it c)
             (effectiveOpeningWidth bootSpace 20) (effectiveOpeningHeight bootSpace 20) of
        Some orient \<Rightarrow> Some (orient, appliedAt it c)
      | None \<Rightarrow> openingCompressionLoop it bootSpace (c + 5))"
  by (subst openingCompressionLoop.simps)
     (simp add: Let_def min_pct [OF assms] compressedAt_level [OF assms] appliedAt_level [OF assms]
        assms(2) split: option.splits)

lemma spaceCompressionLoop_step:
  assumes "c \<le> compressibility it"
  shows "spaceCompressionLoop it bootSpace packed c =
     (case tryOrientations (filterOrientationsForOpening (compressedAt it c) bootSpace)
             bootSpace packed of
        Some (orient, pos) \<Rightarrow> Some (orient, pos, appliedAt it c)
      | None \<Rightarrow> spaceCompressionLoop it bootSpace packed (c + 5))"
  by (subst spaceCompressionLoop.simps)
     (simp add: Let_def compressedAt_def appliedAt_def assms split: prod.splits option.splits)

lemma openingCompressionLoop_Some:
  "openingCompressionLoop it bootSpace c = Some (orient, applied) \<Longrightarrow> 0 < c \<Longrightarrow> 5 dvd c \<Longrightarrow>
     \<exists>k. c \<le> k \<and> k \<le> compressibility it \<and> 5 dvd k \<and> applied = appliedAt it k \<and>
         orient \<in> set (compressedAt it k)"
proof (induction it bootSpace c rule: openingCompressionLoop.induct)
  case (1 it bootSpace c)
  show ?case
  proof (cases "c \<le> compressibility it")
    case False
    with "1.prems" show ?thesis by (simp add: openingCompressionLoop.simps [of _ _ c])
  next
    case True
    note step = openingCompressionLoop_step [OF "1.prems"(2) True, of bootSpace]
    show ?thesis
    proof (cases "firstThroughOpening (compressedAt it c)
                    (effectiveOpeningWidth bootSpace 20) (effectiveOpeningHeight bootSpace 20)")
      case (Some a)
      with "1.prems"(1) have "a = orient" "applied = appliedAt it c"
        by (simp_all add: step)
      with Some firstThroughOpening_Some True "1.prems" show ?thesis by blast
    next
      case None
      with "1.prems"(1) have "openingCompressionLoop it bootSpace (c + 5) = Some (orient, applied)"
        by (simp add: step)
      moreover from None have "firstThroughOpening
           (generateOrientations
             (compressDimensions (dimensions it)
               (fl (1 - min (fl (rat_of_int c / 100)) (fl (rat_of_int (compressibility it) / 100)))))
             (orientationConstraints it))
           (effectiveOpeningWidth bootSpace 20) (effectiveOpeningHeight bootSpace 20) = None"
        by (simp add: min_pct [OF "1.prems"(2) True] compressedAt_level [OF "1.prems"(2) True])
      ultimately obtain k where "c + 5 \<le> k \<and> k \<le> compressibility it \<and> 5 dvd k \<and>
          applied = appliedAt it k \<and> orient \<in> set (compressedAt it k)"
        using "1.IH" [OF True refl refl refl refl refl] "1.prems" by auto
      then show ?thesis by (intro exI [of _ k]) simp
    qed
  qed
qed

lemma openingCompressionLoop_None:
  "0 < c \<Longrightarrow> 5 dvd c \<Longrightarrow>
   (\<And>k. c \<le> k \<Longrightarrow> k \<le> compressibility it \<Longrightarrow> 5 dvd k \<Longrightarrow>
      firstThroughOpening (compressedAt it k)
        (effectiveOpeningWidth bootSpace 20) (effectiveOpeningHeight bootSpace 20) = None) \<Longrightarrow>
   openingCompressionLoop it bootSpace c = None"
proof (induction it bootSpace c rule: openingCompressionLoop.induct)
  case (1 it bootSpace c)
  show ?case
  proof (cases "c \<le> compressibility it")
    case False
    then show ?thesis by (simp add: openingCompressionLoop.simps [of _ _ c])
  next
    case True
    from "1.prems" True
    have none: "firstThroughOpening (compressedAt it c)
        (effectiveOpeningWidth bootSpace 20) (effectiveOpeningHeight bootSpace 20) = None"
      by simp
    then have none': "firstThroughOpening
           (generateOrientations
             (compressDimensions (dimensions it)
               (fl (1 - min (fl (rat_of_int c / 100)) (fl (rat_of_int (compressibility it) / 100)))))
             (orientationConstraints it))
           (effectiveOpeningWidth bootSpace 20) (effectiveOpeningHeight bootSpace 20) = None"
      by (simp add: min_pct [OF "1.prems"(1) True] compressedAt_level [OF "1.prems"(1) True])
    have "openingCompressionLoop it bootSpace (c + 5) = None"
      using "1.IH" [OF True refl refl refl refl refl none'] "1.prems" by simp
    with none show ?thesis
      by (simp add: openingCompressionLoop_step [OF "1.prems"(1) True])
  qed
qed

lemma spaceCompressionLoop_Some:
  "spaceCompressionLoop it bootSpace packed c = Some (orient, pos, applied) \<Longrightarrow> 0 < c \<Longrightarrow>
     5 dvd c \<Longrightarrow>
     \<exists>k. c \<le> k \<and> k \<le> compressibility it \<and> 5 dvd k \<and> applied = appliedAt it k \<and>
         orient \<in> set (compressedAt it k) \<and>
         findBestPosition orient bootSpace packed = Some pos"
proof (induction it bootSpace packed c rule: spaceCompressionLoop.induct)
  case (1 it bootSpace packed c)
  show ?case
  proof (cases "c \<le> compressibility it")
    case False
    with "1.prems" show ?thesis by (simp add: spaceCompressionLoop.simps [of _ _ _ c])
  next
    case True
    note step = spaceCompressionLoop_step [OF True, of bootSpace packed]
    let ?vs = "filterOrientationsForOpening (compressedAt it c) bootSpace"
    have sub: "set ?vs \<subseteq> set (compressedAt it c)"
      by (auto simp: filterOrientationsForOpening_def)
    show ?thesis
    proof (cases "tryOrientations ?vs bootSpace packed")
      case (Some a)
      with "1.prems"(1) have "a = (orient, pos)" "applied = appliedAt it c"
        by (auto simp add: step split: prod.splits)
      with Some tryOrientations_Some [of ?vs bootSpace packed orient pos] sub True "1.prems"
      show ?thesis by (intro exI [of _ c]) auto
    next
      case None
      with "1.prems"(1)
      have next_level: "spaceCompressionLoop it bootSpace packed (c + 5) = Some (orient, pos, applied)"
        by (simp add: step)
      have ac: "(fst (applyCompression it c), snd (applyCompression it c)) =
          applyCompression it c" by simp
      from None have none': "tryOrientations
          (filterOrientationsForOpening
            (generateOrientations (fst (applyCompression it c)) (orientationConstraints it))
            bootSpace) bootSpace packed = None"
        by (simp add: compressedAt_def)
      from "1.prems" have "0 < c + 5" "5 dvd c + 5" by simp_all
      from "1.IH" [OF True ac refl refl refl none' next_level this]
      obtain k where "c + 5 \<le> k \<and> k \<le> compressibility it \<and> 5 dvd k \<and>
          applied = appliedAt it k \<and> orient \<in> set (compressedAt it k) \<and>
          findBestPosition orient bootSpace packed = Some pos"
        by blast
      then show ?thesis by (intro exI [of _ k]) simp
    qed
  qed
qed

lemma spaceCompressionLoop_None:
  "0 < c \<Longrightarrow> 5 dvd c \<Longrightarrow>
   (\<And>k. c \<le> k \<Longrightarrow> k \<le> compressibility it \<Longrightarrow> 5 dvd k \<Longrightarrow>
      tryOrientations (filterOrientationsForOpening (compressedAt it k) bootSpace)
        bootSpace packed = None) \<Longrightarrow>
   spaceCompressionLoop it bootSpace packed c = None"
proof (induction it bootSpace packed c rule: spaceCompressionLoop.induct)
  case (1 it bootSpace packed c)
  show ?case
  proof (cases "c \<le> compressibility it")
    case False
    then show ?thesis by (simp add: spaceCompressionLoop.simps [of _ _ _ c])
  next
    case True
    from "1.prems" True
    have none: "tryOrientations (filterOrientationsForOpening (compressedAt it c) bootSpace)
        bootSpace packed = None"
      by simp
    have ac: "(fst (applyCompression it c), snd (applyCompression it c)) = applyCompression it c"
      by simp
    have "spaceCompressionLoop it bootSpace packed (c + 5) = None"
      using "1.IH" [OF True ac refl refl refl] none "1.prems"
      by (simp add: compressedAt_def)
    with none show ?thesis
      by (simp add: spaceCompressionLoop_step [OF True])
  qed
qed

lemma placedI:
  "findBestPosition orient bootSpace (packedItems_acc st) = Some pos \<Longrightarrow>
   placementOk it orient c applied \<Longrightarrow>
   packedItems_acc st' = packedItems_acc st @
          [\<lparr> item = it, position = pos, orientation = orient,
             compressed = c, compressionApplied = applied \<rparr>] \<Longrightarrow>
   unpackedItems_acc st' = unpackedItems_acc st \<Longrightarrow>
   totalVolumeUsed st' = totalVolumeUsed st + calculateItemVolume orient \<Longrightarrow>
   placed bootSpace st it st'"
  unfolding placed_def by blast

lemma filterOrientationsForOpening_subset:
  "set (filterOrientationsForOpening os bootSpace) \<subseteq> set os"
  by (auto simp: filterOrientationsForOpening_def)

lemma placementOk_compressedI:
  "5 \<le> k \<Longrightarrow> k \<le> compressibility it \<Longrightarrow> 5 dvd k \<Longrightarrow> applied = appliedAt it k \<Longrightarrow>
     orient \<in> set (compressedAt it k) \<Longrightarrow> placementOk it orient True applied"
  unfolding placementOk_def by (simp only: if_True) (rule bexI [of _ k], simp_all)

lemma packStep_fit:
  assumes "\<not> (filterOrientationsForOpening (orientations it) bootSpace = [] \<and>
              hasOpeningConstraints bootSpace)"
    and "tryOrientations (filterOrientationsForOpening (orientations it) bootSpace) bootSpace
           (packedItems_acc st) = Some (orient, pos)"
  shows "packStep bootSpace st it = pushPacked st it pos orient False 0"
  using assms unfolding packStep_def Let_def by auto

lemma packStep_space_compress:
  assumes "\<not> (filterOrientationsForOpening (orientations it) bootSpace = [] \<and>
              hasOpeningConstraints bootSpace)"
    and "tryOrientations (filterOrientationsForOpening (orientations it) bootSpace) bootSpace
           (packedItems_acc st) = None"
    and "compressibility it > 0"
    and "spaceCompressionLoop it bootSpace (packedItems_acc st) 5 = Some (orient, pos, applied)"
  shows "packStep bootSpace st it =
           (pushPacked st it pos orient True applied)
             \<lparr> itemsRequiringCompression := itemsRequiringCompression st + 1 \<rparr>"
  using assms unfolding packStep_def Let_def by auto

lemma packStep_space_reject:
  assumes "\<not> (filterOrientationsForOpening (orientations it) bootSpace = [] \<and>
              hasOpeningConstraints bootSpace)"
    and "tryOrientations (filterOrientationsForOpening (orientations it) bootSpace) bootSpace
           (packedItems_acc st) = None"
    and "\<not> compressibility it > 0 \<or>
         spaceCompressionLoop it bootSpace (packedItems_acc st) 5 = None"
  shows "packStep bootSpace st it = st \<lparr> unpackedItems_acc := unpackedItems_acc st @ [it] \<rparr>"
  using assms unfolding packStep_def Let_def by auto

lemma packStep_opening_compress:
  assumes "filterOrientationsForOpening (orientations it) bootSpace = []"
    and "hasOpeningConstraints bootSpace"
    and "compressibility it > 0"
    and "applyCompressionForOpening it bootSpace = Some (dims, applied)"
    and "findBestPosition dims bootSpace (packedItems_acc st) = Some pos"
  shows "packStep bootSpace st it =
           (pushPacked st it pos dims True applied)
             \<lparr> itemsRequiringCompression := itemsRequiringCompression st + 1 \<rparr>"
  using assms unfolding packStep_def Let_def by simp

lemma packStep_opening_reject:
  assumes "filterOrientationsForOpening (orientations it) bootSpace = []"
    and "hasOpeningConstraints bootSpace"
    and "\<not> compressibility it > 0 \<or> applyCompressionForOpening it bootSpace = None \<or>
         (\<exists>dims applied. applyCompressionForOpening it bootSpace = Some (dims, applied) \<and>
            findBestPosition dims bootSpace (packedItems_acc st) = None)"
  shows "packStep bootSpace st it =
           st \<lparr> unpackedItems_acc := unpackedItems_acc st @ [it],
                itemsRejectedByOpening := itemsRejectedByOpening st + 1 \<rparr>"
  using assms unfolding packStep_def Let_def by auto

lemma packStep_cases:
  "placed bootSpace st it (packStep bootSpace st it) \<or> rejected st it (packStep bootSpace st it)"
proof (cases "filterOrientationsForOpening (orientations it) bootSpace = [] \<and>
              hasOpeningConstraints bootSpace")
  case True
  then have e: "filterOrientationsForOpening (orientations it) bootSpace = []"
    and h: "hasOpeningConstraints bootSpace" by simp_all
  consider
      (compress) dims applied pos where "compressibility it > 0"
        "applyCompressionForOpening it bootSpace = Some (dims, applied)"
        "findBestPosition dims bootSpace (packedItems_acc st) = Some pos"
    | (reject) "\<not> compressibility it > 0 \<or> applyCompressionForOpening it bootSpace = None \<or>
         (\<exists>dims applied. applyCompressionForOpening it bootSpace = Some (dims, applied) \<and>
            findBestPosition dims bootSpace (packedItems_acc st) = None)"
    by (cases "applyCompressionForOpening it bootSpace") fastforce+
  then show ?thesis
  proof cases
    case compress
    from compress(2) have "openingCompressionLoop it bootSpace 5 = Some (dims, applied)"
      by (simp add: applyCompressionForOpening_def split: if_splits)
    from openingCompressionLoop_Some [OF this] obtain k where
      "5 \<le> k" "k \<le> compressibility it" "5 dvd k" "applied = appliedAt it k"
      "dims \<in> set (compressedAt it k)" by auto
    then have ok: "placementOk it dims True applied" by (rule placementOk_compressedI)
    have "placed bootSpace st it (packStep bootSpace st it)"
      unfolding packStep_opening_compress [OF e h compress]
      by (rule placedI [OF compress(3) ok]) (simp_all add: pushPacked_def)
    then show ?thesis ..
  next
    case reject
    show ?thesis
      unfolding packStep_opening_reject [OF e h reject] by (simp add: rejected_def)
  qed
next
  case False
  let ?vs = "filterOrientationsForOpening (orientations it) bootSpace"
  show ?thesis
  proof (cases "tryOrientations ?vs bootSpace (packedItems_acc st)")
    case (Some r)
    obtain orient pos where r: "r = (orient, pos)" by (cases r)
    from tryOrientations_Some [of ?vs bootSpace "packedItems_acc st" orient pos] Some r
      filterOrientationsForOpening_subset [of "orientations it" bootSpace]
    have fp: "findBestPosition orient bootSpace (packedItems_acc st) = Some pos"
      and ok: "placementOk it orient False 0"
      by (auto simp: placementOk_def)
    have "placed bootSpace st it (packStep bootSpace st it)"
      unfolding packStep_fit [OF False Some [unfolded r]]
      by (rule placedI [OF fp ok]) (simp_all add: pushPacked_def)
    then show ?thesis ..
  next
    case None
    show ?thesis
    proof (cases "compressibility it > 0 \<and>
                  spaceCompressionLoop it bootSpace (packedItems_acc st) 5 \<noteq> None")
      case False
      then have "\<not> compressibility it > 0 \<or>
         spaceCompressionLoop it bootSpace (packedItems_acc st) 5 = None" by blast
      from packStep_space_reject [OF \<open>\<not> (?vs = [] \<and> hasOpeningConstraints bootSpace)\<close> None this]
      show ?thesis by (simp add: rejected_def)
    next
      case True
      then obtain orient pos applied where
        c: "compressibility it > 0" and
        r: "spaceCompressionLoop it bootSpace (packedItems_acc st) 5 = Some (orient, pos, applied)"
        by auto
      from spaceCompressionLoop_Some [OF r] obtain k where
        k: "5 \<le> k" "k \<le> compressibility it" "5 dvd k" "applied = appliedAt it k"
        "orient \<in> set (compressedAt it k)"
        and fp: "findBestPosition orient bootSpace (packedItems_acc st) = Some pos" by auto
      from k have ok: "placementOk it orient True applied" by (rule placementOk_compressedI)
      have "placed bootSpace st it (packStep bootSpace st it)"
        unfolding packStep_space_compress
          [OF \<open>\<not> (?vs = [] \<and> hasOpeningConstraints bootSpace)\<close> None c r]
        by (rule placedI [OF fp ok]) (simp_all add: pushPacked_def)
      then show ?thesis ..
    qed
  qed
qed

section \<open>The main loop: conservation\<close>

lemma truncate_withMetrics: "Item.truncate (withMetrics i) = i"
  by (simp add: withMetrics_def Item.truncate_def Item.extend_def)

lemma mset_insert_sorted: "mset (insert_sorted cmp a bs) = add_mset a (mset bs)"
  by (induction bs) auto

lemma mset_sort_with: "mset (sort_with cmp as) = mset as"
  by (induction as) (auto simp: sort_with_def mset_insert_sorted)

lemma mset_preprocessItems: "mset (preprocessItems items) = mset (map withMetrics items)"
  by (simp add: preprocessItems_def mset_sort_with)

lemma set_preprocessItems: "set (preprocessItems items) = withMetrics ` set items"
  using mset_preprocessItems [of items] by (metis set_mset_mset set_map)

lemma foldl_packStep_invariant:
  "P st \<Longrightarrow> (\<And>s it. P s \<Longrightarrow> it \<in> set its \<Longrightarrow> P (packStep bootSpace s it)) \<Longrightarrow>
     P (foldl (packStep bootSpace) st its)"
  by (induction its arbitrary: st) auto

lemma packStep_conserves:
  "image_mset item (mset (packedItems_acc (packStep bootSpace st it))) +
     mset (unpackedItems_acc (packStep bootSpace st it)) =
   add_mset it (image_mset item (mset (packedItems_acc st)) + mset (unpackedItems_acc st))"
  using packStep_cases [of bootSpace st it]
  by (auto simp: placed_def rejected_def)

lemma foldl_conserves:
  "image_mset item (mset (packedItems_acc (foldl (packStep bootSpace) st its))) +
     mset (unpackedItems_acc (foldl (packStep bootSpace) st its)) =
   image_mset item (mset (packedItems_acc st)) + mset (unpackedItems_acc st) + mset its"
  by (induction its arbitrary: st) (simp_all add: packStep_conserves)

lemma packItems_fields:
  "packedItems (packItems vehicle items) =
     packedItems_acc (packLoop (calculateEffectiveBootSpace vehicle) (preprocessItems items))"
  "unpackedItems (packItems vehicle items) =
     unpackedItems_acc (packLoop (calculateEffectiveBootSpace vehicle) (preprocessItems items))"
  "bootSpaceUsed (packItems vehicle items) =
     totalVolumeUsed (packLoop (calculateEffectiveBootSpace vehicle) (preprocessItems items))"
  by (simp_all add: packItems_def Let_def)

lemma packItems_conserves:
  "image_mset item (mset (packedItems (packItems vehicle items))) +
     mset (unpackedItems (packItems vehicle items)) = image_mset withMetrics (mset items)"
  unfolding packItems_fields packLoop_def foldl_conserves
  by (simp add: initialLoop_def mset_preprocessItems)

text \<open>
  Claim C3. For every vehicle and item list, \<open>packItems\<close> conserves items: the packed
  and the unpacked list together are as long as the input, and each input item ends up
  in exactly one of the two lists, as often as it occurs in the input (the result lists
  hold the items with their metrics; \<open>Item.truncate\<close> gives back the input item).
\<close>

theorem packItems_conservation:
  "length (packedItems (packItems vehicle items)) +
     length (unpackedItems (packItems vehicle items)) = length items \<and>
   mset (map (Item.truncate \<circ> item) (packedItems (packItems vehicle items))) +
     mset (map Item.truncate (unpackedItems (packItems vehicle items))) = mset items"
proof
  let ?r = "packItems vehicle items"
  have "size (image_mset item (mset (packedItems ?r)) + mset (unpackedItems ?r)) =
          size (image_mset withMetrics (mset items))"
    by (simp only: packItems_conserves)
  then show "length (packedItems ?r) + length (unpackedItems ?r) = length items" by simp
  have "image_mset Item.truncate
          (image_mset item (mset (packedItems ?r)) + mset (unpackedItems ?r)) =
        image_mset Item.truncate (image_mset withMetrics (mset items))"
    by (simp only: packItems_conserves)
  then show "mset (map (Item.truncate \<circ> item) (packedItems ?r)) +
     mset (map Item.truncate (unpackedItems ?r)) = mset items"
    by (simp add: truncate_withMetrics comp_def multiset.map_comp)
qed


section \<open>Non-overlap\<close>









section \<open>Containment\<close>



















section \<open>The first box\<close>









lemma placementOk_compressedD:
  "placementOk it orient True applied \<Longrightarrow>
     \<exists>k. 5 \<le> k \<and> k \<le> compressibility it \<and> 5 dvd k \<and> applied = appliedAt it k \<and>
         orient \<in> set (compressedAt it k)"
  unfolding placementOk_def by (simp only: if_True Bex_def atLeastAtMost_iff) blast

lemma placementOk_plainD:
  "placementOk it orient False applied \<Longrightarrow> applied = 0 \<and> orient \<in> set (orientations it)"
  unfolding placementOk_def by (simp only: if_False)

section \<open>Compression bound\<close>

lemma set_compressionLevels:
  "k \<in> set (compressionLevels c) \<longleftrightarrow> 5 \<le> k \<and> k \<le> c \<and> 5 dvd k"
  unfolding compressionLevels_def by (simp only: set_filter set_upto mem_Collect_eq atLeastAtMost_iff) blast

text \<open>
  Up to level 50 the recorded percentage \<^verbatim>\<open>(compression / 100) * 100\<close> is the level
  itself, and the factor \<^verbatim>\<open>1 - compression / 100\<close> is within \<open>1 / 2 ^ 53\<close> of the
  exact one. At level 55 the percentage is above 55 (\<open>fl_examples\<close>).
\<close>

lemma levels_exact:
  "\<forall>k \<in> set [5, 10, 15, 20, 25, 30, 35, 40, 45, 50 :: int].
     fl (fl (of_int k / 100) * 100) = of_int k \<and>
     \<bar>fl (1 - fl (of_int k / 100)) - (1 - of_int k / 100)\<bar> \<le> 1 / 2 ^ 53"
  by code_simp

lemma level_cases:
  assumes "5 \<le> k" and "k < 55" and "5 dvd k"
  shows "k \<in> set [5, 10, 15, 20, 25, 30, 35, 40, 45, 50 :: int]"
proof -
  from assms have "k = 5 \<or> k = 10 \<or> k = 15 \<or> k = 20 \<or> k = 25 \<or> k = 30 \<or> k = 35 \<or>
      k = 40 \<or> k = 45 \<or> k = 50" by presburger
  then show ?thesis by auto
qed

lemma level_exact:
  assumes "5 \<le> k" and "k < 55" and "5 dvd k"
  shows "fl (fl (of_int k / 100) * 100) = of_int k"
    and "\<bar>fl (1 - fl (of_int k / 100)) - (1 - of_int k / 100)\<bar> \<le> 1 / 2 ^ 53"
  using levels_exact level_cases [OF assms] by blast+

text \<open>
  A double within \<open>1 / 20\<close> of a multiple of \<open>1 / 20\<close> is rounded by \<^verbatim>\<open>Math.round\<close> to
  a nearest integer of that multiple.
\<close>

lemma near_round:
  assumes "\<bar>y - of_int m / 20\<bar> < 1 / 20"
  shows "isNearestInt (Math_round y) (of_int m / 20)"
proof -
  let ?n = "Math_round y"
  have n: "of_int ?n \<le> y + 1 / 2" "y + 1 / 2 < of_int ?n + 1"
    unfolding Math_round_def by linarith+
  from assms have y: "y - of_int m / 20 < 1 / 20" "- (y - of_int m / 20) < 1 / 20"
    by (simp_all only: abs_less_iff)
  from n y have "20 * rat_of_int ?n - 11 < of_int m" "rat_of_int m < 20 * of_int ?n + 11"
    by linarith+
  then have "rat_of_int (20 * ?n - 11) < of_int m" "rat_of_int m < of_int (20 * ?n + 11)"
    by simp_all
  then have "20 * ?n - 11 < m" "m < 20 * ?n + 11" by (simp_all only: of_int_less_iff)
  then have "20 * ?n - 10 \<le> m" "m \<le> 20 * ?n + 10" by simp_all
  then have "rat_of_int (20 * ?n - 10) \<le> of_int m" "rat_of_int m \<le> of_int (20 * ?n + 10)"
    by (simp_all only: of_int_le_iff)
  then have "20 * rat_of_int ?n - 10 \<le> of_int m" "rat_of_int m \<le> 20 * of_int ?n + 10"
    by simp_all
  then have "rat_of_int ?n - of_int m / 20 \<le> 1 / 2" "- (rat_of_int ?n - of_int m / 20) \<le> 1 / 2"
    by linarith+
  then show ?thesis unfolding isNearestInt_def by (simp only: abs_le_iff)
qed

lemma abs_diff_triangle: "\<bar>a - c\<bar> \<le> \<bar>a - b\<bar> + \<bar>b - (c::rat)\<bar>"
  by linarith

lemma compressed_nearest:
  assumes f: "\<bar>f' - (1 - of_int k / 100)\<bar> \<le> 1 / 2 ^ 53"
    and k: "5 dvd k" "0 \<le> k" "k \<le> 100"
    and n: "\<bar>n\<bar> \<le> 10 ^ 12"
  shows "isNearestInt (Math_round (fl (of_int n * f'))) (of_int n * (1 - of_int k / 100))"
proof -
  let ?f = "1 - rat_of_int k / 100"
  let ?v = "rat_of_int n * f'"
  from n have "rat_of_int \<bar>n\<bar> \<le> of_int (10 ^ 12)" by (simp only: of_int_le_iff)
  then have nb: "\<bar>rat_of_int n\<bar> \<le> 10 ^ 12" by simp
  from k have "0 \<le> rat_of_int k" "rat_of_int k \<le> 100" by simp_all
  then have fr: "0 \<le> ?f" "?f \<le> 1" by simp_all
  from f have "f' - ?f \<le> 1 / 2 ^ 53" "- (f' - ?f) \<le> 1 / 2 ^ 53"
    by (simp_all only: abs_le_iff)
  moreover have "(1 :: rat) / 2 ^ 53 \<le> 1" by simp
  ultimately have "f' \<le> 2" "- f' \<le> 2" using fr by linarith+
  then have fb: "\<bar>f'\<bar> \<le> 2" by (simp only: abs_le_iff)
  have "\<bar>?v - of_int n * ?f\<bar> = \<bar>of_int n\<bar> * \<bar>f' - ?f\<bar>"
    by (simp only: abs_mult [symmetric] right_diff_distrib)
  also have "\<dots> \<le> 10 ^ 12 * (1 / 2 ^ 53)"
    using nb f by (intro mult_mono) simp_all
  finally have 1: "\<bar>?v - of_int n * ?f\<bar> \<le> 10 ^ 12 / 2 ^ 53" by simp
  have "\<bar>?v\<bar> = \<bar>of_int n\<bar> * \<bar>f'\<bar>" by (simp only: abs_mult)
  also have "\<dots> \<le> 10 ^ 12 * 2" using nb fb by (intro mult_mono) simp_all
  finally have "\<bar>?v\<bar> / 2 ^ 53 \<le> 10 ^ 12 * 2 / 2 ^ 53" by (simp add: divide_right_mono)
  with fl_error [of ?v] have 2: "\<bar>fl ?v - ?v\<bar> \<le> 10 ^ 12 * 2 / 2 ^ 53" by (rule order_trans)
  have "\<bar>fl ?v - of_int n * ?f\<bar> \<le> \<bar>fl ?v - ?v\<bar> + \<bar>?v - of_int n * ?f\<bar>"
    by (rule abs_diff_triangle)
  also from 1 2 have "\<dots> \<le> 10 ^ 12 * 2 / 2 ^ 53 + 10 ^ 12 / 2 ^ 53" by (rule add_mono [rotated])
  also have "\<dots> < 1 / 20" by simp
  finally have 3: "\<bar>fl ?v - of_int n * ?f\<bar> < 1 / 20" .
  from k(1) obtain j where j: "k = 5 * j" ..
  have e: "of_int n * ?f = of_int (n * (20 - j)) / 20" by (simp add: j algebra_simps)
  from 3 have "\<bar>fl ?v - of_int (n * (20 - j)) / 20\<bar> < 1 / 20" by (simp only: e)
  then have "isNearestInt (Math_round (fl ?v)) (of_int (n * (20 - j)) / 20)" by (rule near_round)
  then show ?thesis by (simp only: e)
qed

lemma level_scaledBy:
  assumes "5 \<le> k" and "k < 55" and "5 dvd k" and "boundedDims d"
  shows "scaledBy d (1 - of_int k / 100) (compressDimensions d (fl (1 - fl (of_int k / 100))))"
proof -
  from assms(1,2) have k: "0 \<le> k" "k \<le> 100" by simp_all
  note near = compressed_nearest [OF level_exact(2) [OF assms(1-3)] assms(3) k]
  from assms(4) show ?thesis
    by (simp add: scaledBy_def compressDimensions_def boundedDims_def near)
qed

lemma packStep_placementRecorded:
  assumes "\<forall>p \<in> set (packedItems_acc st). placementRecorded p"
  shows "\<forall>p \<in> set (packedItems_acc (packStep bootSpace st it)). placementRecorded p"
  using packStep_cases [of bootSpace st it]
proof
  assume "placed bootSpace st it (packStep bootSpace st it)"
  then obtain orient pos c applied where
    ok: "placementOk it orient c applied" and
    eq: "packedItems_acc (packStep bootSpace st it) = packedItems_acc st @
          [\<lparr> item = it, position = pos, orientation = orient,
             compressed = c, compressionApplied = applied \<rparr>]"
    unfolding placed_def by blast
  from ok assms show ?thesis unfolding eq by (simp add: placementRecorded_def)
next
  assume "rejected st it (packStep bootSpace st it)"
  with assms show ?thesis by (simp add: rejected_def)
qed

lemma packStep_item_mem:
  assumes "\<forall>p \<in> set (packedItems_acc st). item p \<in> A" and "it \<in> A"
  shows "\<forall>p \<in> set (packedItems_acc (packStep bootSpace st it)). item p \<in> A"
  using packStep_cases [of bootSpace st it] assms
  by (auto simp: placed_def rejected_def)

lemma packLoop_placementRecorded:
  "\<forall>p \<in> set (packedItems_acc (packLoop bootSpace its)).
     placementRecorded p \<and> item p \<in> set its"
  unfolding packLoop_def
proof (rule foldl_packStep_invariant
    [where P = "\<lambda>s. \<forall>p \<in> set (packedItems_acc s). placementRecorded p \<and> item p \<in> set its"])
  show "\<forall>p \<in> set (packedItems_acc initialLoop). placementRecorded p \<and> item p \<in> set its"
    by (simp add: initialLoop_def)
next
  fix s :: PackLoop and it
  assume "\<forall>p \<in> set (packedItems_acc s). placementRecorded p \<and> item p \<in> set its"
    and "it \<in> set its"
  then show "\<forall>p \<in> set (packedItems_acc (packStep bootSpace s it)).
      placementRecorded p \<and> item p \<in> set its"
    using packStep_placementRecorded [of s bootSpace it] packStep_item_mem [of s "set its" it bootSpace]
    by blast
qed

lemma withMetrics_fields:
  "dimensions (withMetrics i) = dimensions i"
  "compressibility (withMetrics i) = compressibility i"
  "orientationConstraints (withMetrics i) = orientationConstraints i"
  "orientations (withMetrics i) =
     generateOrientations (dimensions i) (orientationConstraints i)"
  "compressedAt (withMetrics i) k = compressedAt i k"
  "appliedAt (withMetrics i) k = appliedAt i k"
  by (simp_all add: withMetrics_def Item.extend_def ItemWithMetrics.fields_def compressedAt_def
        appliedAt_def applyCompression_def Let_def)

lemma packItems_placementRecorded:
  "p \<in> set (packedItems (packItems vehicle items)) \<Longrightarrow>
     placementRecorded p \<and> (\<exists>i \<in> set items. item p = withMetrics i)"
  using packLoop_placementRecorded [of "calculateEffectiveBootSpace vehicle" "preprocessItems items"]
  by (auto simp: packItems_fields set_preprocessItems)

text \<open>
  The claim as written fails in three ways. An item with compressibility \<open>- 5\<close> is
  packed uncompressed, with \<open>compressionApplied = 0\<close>, which is above its
  compressibility. A roll of \<open>2200 \<times> 100 \<times> 100\<close> with compressibility 55 fits the boot
  of the tests at level 55 only, and the percentage recorded is \<^verbatim>\<open>0.55 * 100\<close>, the
  double \<open>55.00000000000001\<close>, which is above 55. And for a length of
  \<open>9007199254740989\<close>, an integer that a double holds, \<^verbatim>\<open>applyCompression\<close> at 5
  percent returns \<open>8556839292003939\<close> where the exact product is
  \<open>8556839292003939.55\<close>: not a nearest integer.
\<close>

theorem compression_bound_counterexample:
  "map (\<lambda>p. (compressed p, compressionApplied p, compressibility (item p)))
     (packedItems (packItems mockVehicle [negativeCompressibilityItem])) = [(False, 0, - 5)] \<and>
   map (\<lambda>p. (compressed p, orientation p, compressibility (item p)))
     (packedItems (packItems mockVehicle [foamRoll])) =
     [(True, \<lparr> length_dim = 990, width = 45, height = 45 \<rparr>, 55)] \<and>
   map compressionApplied (packedItems (packItems mockVehicle [foamRoll])) =
     [7740561859543041 / 140737488355328] \<and>
   (55 :: rat) < 7740561859543041 / 140737488355328 \<and>
   fst (applyCompression hugeBar 5) =
     \<lparr> length_dim = 8556839292003939, width = 285, height = 285 \<rparr> \<and>
   \<not> isNearestInt 8556839292003939 (9007199254740989 * (1 - 5 / 100))"
  by code_simp

text \<open>
  Claim C5, amended. For every vehicle and list of items with a compressibility from 0 to
  54 (the validated range is 0 to 30), every entry \<open>p\<close> of \<open>packedItems\<close> has
  \<open>0 \<le> compressionApplied p \<le> compressibility (item p)\<close>, with \<open>compressionApplied p = 0\<close>
  whenever \<open>compressed p\<close> is false. When compression is applied, the percentage recorded
  is one of the levels \<open>k\<close> (a multiple of 5 from 5 up to the compressibility), and the
  occupied dimensions are an orientation of the original dimensions, each multiplied by
  the one factor \<^verbatim>\<open>1 - k / 100\<close> in double arithmetic and rounded by \<^verbatim>\<open>Math.round\<close>; for
  dimensions of at most \<open>10 ^ 12\<close> millimetres each of these is a nearest integer of the
  exact product of the dimension and \<open>1 - compressionApplied p / 100\<close>.
\<close>

theorem compression_bound:
  assumes "\<forall>i \<in> set items. 0 \<le> compressibility i \<and> compressibility i < 55"
  shows "\<forall>p \<in> set (packedItems (packItems vehicle items)).
     0 \<le> compressionApplied p \<and>
     compressionApplied p \<le> of_int (compressibility (item p)) \<and>
     (\<not> compressed p \<longrightarrow> compressionApplied p = 0) \<and>
     (compressed p \<longrightarrow>
        (\<exists>k \<in> set (compressionLevels (compressibility (item p))).
           compressionApplied p = of_int k \<and>
           orientation p \<in> set (generateOrientations
             (compressDimensions (dimensions (item p)) (fl (1 - fl (of_int k / 100))))
             (orientationConstraints (item p))) \<and>
           (boundedDims (dimensions (item p)) \<longrightarrow>
              scaledBy (dimensions (item p)) (1 - compressionApplied p / 100)
                (compressDimensions (dimensions (item p)) (fl (1 - fl (of_int k / 100)))))))"
proof
  fix p
  assume "p \<in> set (packedItems (packItems vehicle items))"
  from packItems_placementRecorded [OF this] obtain i where
    ok: "placementOk (item p) (orientation p) (compressed p) (compressionApplied p)"
    and i: "i \<in> set items" "item p = withMetrics i"
    by (auto simp: placementRecorded_def)
  from i assms have nn: "0 \<le> compressibility (item p)" and lt: "compressibility (item p) < 55"
    by (simp_all add: withMetrics_fields)
  show "0 \<le> compressionApplied p \<and>
     compressionApplied p \<le> of_int (compressibility (item p)) \<and>
     (\<not> compressed p \<longrightarrow> compressionApplied p = 0) \<and>
     (compressed p \<longrightarrow>
        (\<exists>k \<in> set (compressionLevels (compressibility (item p))).
           compressionApplied p = of_int k \<and>
           orientation p \<in> set (generateOrientations
             (compressDimensions (dimensions (item p)) (fl (1 - fl (of_int k / 100))))
             (orientationConstraints (item p))) \<and>
           (boundedDims (dimensions (item p)) \<longrightarrow>
              scaledBy (dimensions (item p)) (1 - compressionApplied p / 100)
                (compressDimensions (dimensions (item p)) (fl (1 - fl (of_int k / 100)))))))"
  proof (cases "compressed p")
    case False
    with ok have "placementOk (item p) (orientation p) False (compressionApplied p)" by simp
    from placementOk_plainD [OF this] False nn show ?thesis by simp
  next
    case True
    with ok have "placementOk (item p) (orientation p) True (compressionApplied p)" by simp
    from placementOk_compressedD [OF this] obtain k where k: "5 \<le> k"
      "k \<le> compressibility (item p)" "5 dvd k"
      "compressionApplied p = appliedAt (item p) k" "orientation p \<in> set (compressedAt (item p) k)"
      by blast
    from k(1) have pos: "0 < k" by simp
    from k(2) lt have k55: "k < 55" by simp
    have a: "compressionApplied p = of_int k"
      unfolding k(4) appliedAt_level [OF pos k(2)] by (rule level_exact(1) [OF k(1) k55 k(3)])
    have o: "orientation p \<in> set (generateOrientations
             (compressDimensions (dimensions (item p)) (fl (1 - fl (of_int k / 100))))
             (orientationConstraints (item p)))"
      using k(5) unfolding compressedAt_level [OF pos k(2)] .
    have s: "boundedDims (dimensions (item p)) \<longrightarrow>
              scaledBy (dimensions (item p)) (1 - compressionApplied p / 100)
                (compressDimensions (dimensions (item p)) (fl (1 - fl (of_int k / 100))))"
      unfolding a using level_scaledBy [OF k(1) k55 k(3)] by blast
    from k(1-3) have m: "k \<in> set (compressionLevels (compressibility (item p)))"
      by (simp add: set_compressionLevels)
    from k(1,2) have b: "0 \<le> rat_of_int k" "rat_of_int k \<le> of_int (compressibility (item p))"
      by simp_all
    from m a o s have "\<exists>k \<in> set (compressionLevels (compressibility (item p))).
           compressionApplied p = of_int k \<and>
           orientation p \<in> set (generateOrientations
             (compressDimensions (dimensions (item p)) (fl (1 - fl (of_int k / 100))))
             (orientationConstraints (item p))) \<and>
           (boundedDims (dimensions (item p)) \<longrightarrow>
              scaledBy (dimensions (item p)) (1 - compressionApplied p / 100)
                (compressDimensions (dimensions (item p)) (fl (1 - fl (of_int k / 100)))))"
      by blast
    with True a b show ?thesis by simp
  qed
qed

theorem compression_bound_witness:
  "compressed (hd (packedItems (packItems tightVehicle [flexibleItem]))) \<and>
   compressionApplied (hd (packedItems (packItems tightVehicle [flexibleItem]))) = 5 \<and>
   compressionApplied (hd (packedItems (packItems tightVehicle [flexibleItem]))) \<le> 20 \<and>
   orientation (hd (packedItems (packItems tightVehicle [flexibleItem]))) =
     \<lparr> length_dim = 570, width = 285, height = 285 \<rparr> \<and>
   (\<exists>k \<in> set (compressionLevels 20).
      (5 :: rat) = of_int k \<and>
      \<lparr> length_dim = 570, width = 285, height = 285 \<rparr> \<in> set (generateOrientations
         (compressDimensions \<lparr> length_dim = 600, width = 300, height = 300 \<rparr>
            (fl (1 - fl (of_int k / 100)))) any_orientation) \<and>
      scaledBy \<lparr> length_dim = 600, width = 300, height = 300 \<rparr> (1 - 5 / 100)
        (compressDimensions \<lparr> length_dim = 600, width = 300, height = 300 \<rparr>
           (fl (1 - fl (of_int k / 100)))))"
proof -
  let ?r = "packedItems (packItems tightVehicle [flexibleItem])"
  have h: "\<forall>i \<in> set [flexibleItem]. 0 \<le> compressibility i \<and> compressibility i < 55"
    by code_simp
  have ne: "?r \<noteq> []" by code_simp
  have c: "compressed (hd ?r)" by code_simp
  have a: "compressionApplied (hd ?r) = 5" by code_simp
  have k: "compressibility (item (hd ?r)) = 20" by code_simp
  have d: "dimensions (item (hd ?r)) = \<lparr> length_dim = 600, width = 300, height = 300 \<rparr>"
    by code_simp
  have oc: "orientationConstraints (item (hd ?r)) = any_orientation" by code_simp
  have o: "orientation (hd ?r) = \<lparr> length_dim = 570, width = 285, height = 285 \<rparr>" by code_simp
  have b: "boundedDims \<lparr> length_dim = 600, width = 300, height = 300 \<rparr>"
    by (simp add: boundedDims_def)
  from ne have "hd ?r \<in> set ?r" by simp
  with compression_bound [OF h, of tightVehicle] c
  have "compressionApplied (hd ?r) \<le> of_int (compressibility (item (hd ?r))) \<and>
    (\<exists>k \<in> set (compressionLevels (compressibility (item (hd ?r)))).
           compressionApplied (hd ?r) = of_int k \<and>
           orientation (hd ?r) \<in> set (generateOrientations
             (compressDimensions (dimensions (item (hd ?r))) (fl (1 - fl (of_int k / 100))))
             (orientationConstraints (item (hd ?r)))) \<and>
           (boundedDims (dimensions (item (hd ?r))) \<longrightarrow>
              scaledBy (dimensions (item (hd ?r))) (1 - compressionApplied (hd ?r) / 100)
                (compressDimensions (dimensions (item (hd ?r))) (fl (1 - fl (of_int k / 100))))))"
    by blast
  with c a o b show ?thesis unfolding k d oc o a by simp
qed

section \<open>Utilization\<close>




lemma Math_round_positive:
  assumes "0 < n" and "1 / 2 \<le> f"
  shows "0 < Math_round (fl (of_int n * f))"
proof -
  from assms(1) have "(1::rat) \<le> of_int n" by simp
  with assms(2) have "1 * (1 / 2) \<le> of_int n * f"
    by (intro mult_mono) simp_all
  then have "1 / 2 \<le> of_int n * f" by simp
  then have "1 / 2 \<le> fl (of_int n * f)" by (rule fl_half_le)
  then have "(1::rat) \<le> fl (of_int n * f) + 1 / 2" by simp
  then have "1 \<le> \<lfloor>fl (of_int n * f) + 1 / 2\<rfloor>" by (simp add: le_floor_iff)
  then show ?thesis by (simp add: Math_round_def)
qed


lemma level_factor:
  assumes "0 < k" and "k \<le> 50"
  shows "1 / 2 \<le> fl (1 - fl (rat_of_int k / 100))"
proof -
  from assms have "0 < rat_of_int k" "rat_of_int k \<le> 50" by simp_all
  then have "0 < rat_of_int k / 100" "rat_of_int k / 100 \<le> 1 / 2" by simp_all
  then have "fl (rat_of_int k / 100) \<le> 1 / 2" by (rule fl_le_half)
  then have "1 / 2 \<le> 1 - fl (rat_of_int k / 100)" by simp
  then show ?thesis by (rule fl_half_le)
qed





lemma capEfficiency_lower: "7 / 10 \<le> e \<Longrightarrow> 7 / 10 \<le> capEfficiency e irr"
  by (cases "severity irr") (simp_all add: capEfficiency_def)

lemma foldl_capEfficiency_lower: "7 / 10 \<le> e \<Longrightarrow> 7 / 10 \<le> foldl capEfficiency e irrs"
proof (induction irrs arbitrary: e)
  case Nil
  then show ?case by simp
next
  case (Cons irr irrs)
  from Cons.prems have "7 / 10 \<le> capEfficiency e irr" by (rule capEfficiency_lower)
  then have "7 / 10 \<le> foldl capEfficiency (capEfficiency e irr) irrs" by (rule Cons.IH)
  then show ?case by simp
qed

lemma efficiencyFactor_positive: "0 < efficiencyFactor (calculateEffectiveBootSpace vehicle)"
proof -
  have "7 / 10 \<le> foldl capEfficiency (85 / 100) (bootIrregularities vehicle)"
    by (rule foldl_capEfficiency_lower) simp
  then show ?thesis by (simp add: calculateEffectiveBootSpace_def Let_def)
qed

lemma volume_nominal:
  "volume (calculateEffectiveBootSpace vehicle) =
     length_dim (bootMeasurements vehicle) * width (bootMeasurements vehicle) *
     height (bootMeasurements vehicle)"
  by (simp add: calculateEffectiveBootSpace_def Let_def)





section \<open>Opening gating\<close>

lemma unpacked_mono:
  "g \<in> set (unpackedItems_acc st) \<Longrightarrow> g \<in> set (unpackedItems_acc (packStep bootSpace st it))"
  using packStep_cases [of bootSpace st it]
  by (auto simp: placed_def rejected_def)

lemma foldl_rejected_unpacked:
  assumes G: "\<And>st. rejected st g (packStep bootSpace st g)"
  shows "g \<in> set its \<or> g \<in> set (unpackedItems_acc st) \<Longrightarrow>
         g \<in> set (unpackedItems_acc (foldl (packStep bootSpace) st its))"
proof (induction its arbitrary: st)
  case Nil
  then show ?case by simp
next
  case (Cons a its)
  have "g \<in> set its \<or> g \<in> set (unpackedItems_acc (packStep bootSpace st a))"
  proof (cases "g = a")
    case True
    with G [of st] show ?thesis by (simp add: rejected_def)
  next
    case False
    with Cons.prems unpacked_mono [of g st bootSpace a] show ?thesis by auto
  qed
  from Cons.IH [OF this] show ?case by simp
qed

lemma foldl_rejected_not_packed:
  assumes G: "\<And>st. rejected st g (packStep bootSpace st g)"
    and "\<forall>p \<in> set (packedItems_acc st). item p \<noteq> g"
  shows "\<forall>p \<in> set (packedItems_acc (foldl (packStep bootSpace) st its)). item p \<noteq> g"
proof (rule foldl_packStep_invariant
    [where P = "\<lambda>s. \<forall>p \<in> set (packedItems_acc s). item p \<noteq> g"])
  show "\<forall>p \<in> set (packedItems_acc st). item p \<noteq> g" by (rule assms(2))
next
  fix s :: PackLoop and it
  assume inv: "\<forall>p \<in> set (packedItems_acc s). item p \<noteq> g"
  show "\<forall>p \<in> set (packedItems_acc (packStep bootSpace s it)). item p \<noteq> g"
  proof (cases "it = g")
    case True
    with G [of s] inv show ?thesis by (simp add: rejected_def)
  next
    case False
    with packStep_cases [of bootSpace s it] inv show ?thesis
      by (auto simp: placed_def rejected_def)
  qed
qed

lemma packItems_rejected:
  assumes "\<And>st. rejected st (withMetrics i)
             (packStep (calculateEffectiveBootSpace vehicle) st (withMetrics i))"
    and "i \<in> set items"
  shows "withMetrics i \<in> set (unpackedItems (packItems vehicle items)) \<and>
         (\<forall>p \<in> set (packedItems (packItems vehicle items)). item p \<noteq> withMetrics i)"
proof -
  from assms(2) have "withMetrics i \<in> set (preprocessItems items)"
    by (simp add: set_preprocessItems)
  then have "withMetrics i \<in> set (unpackedItems (packItems vehicle items))"
    unfolding packItems_fields packLoop_def
    by (intro foldl_rejected_unpacked [OF assms(1)]) simp
  moreover have "\<forall>p \<in> set (packedItems (packItems vehicle items)). item p \<noteq> withMetrics i"
    unfolding packItems_fields packLoop_def
    by (rule foldl_rejected_not_packed [OF assms(1)]) (simp add: initialLoop_def)
  ultimately show ?thesis ..
qed


lemma opening_nominal:
  "openingWidth (calculateEffectiveBootSpace vehicle) = openingWidth (bootMeasurements vehicle)"
  "openingHeight (calculateEffectiveBootSpace vehicle) = openingHeight (bootMeasurements vehicle)"
  "hasOpeningConstraints (calculateEffectiveBootSpace vehicle) =
     (truthy (openingWidth (bootMeasurements vehicle)) \<or>
      truthy (openingHeight (bootMeasurements vehicle)))"
  by (simp_all add: calculateEffectiveBootSpace_def Let_def)




section \<open>Flat cubes\<close>

text \<open>The limit of the flat filter, \<^verbatim>\<open>Math.max(length, width) * 0.6\<close>, is below the maximum.\<close>

lemma flat_limit:
  assumes "0 < m"
  shows "fl (of_int m * fl (6 / 10)) < of_int m"
proof -
  let ?v = "rat_of_int m * fl (6 / 10)"
  have c: "0 < fl (6 / 10)" "fl (6 / 10) \<le> 61 / 100" by code_simp+
  from assms have m: "0 < rat_of_int m" by simp
  with c(1) have v: "0 < ?v" by simp
  from m c(2) have le: "?v \<le> of_int m * (61 / 100)" by (simp only: mult_le_cancel_left_pos)
  then have "?v / 2 ^ 53 \<le> of_int m * (61 / 100) / 2 ^ 53" by (simp add: divide_right_mono)
  moreover from fl_error_pos [OF v] have "fl ?v - ?v \<le> ?v / 2 ^ 53" by (rule abs_le_D1)
  ultimately have e: "fl ?v - ?v \<le> of_int m * (61 / 100) / 2 ^ 53" by (rule order_trans [rotated])
  have "fl ?v = (fl ?v - ?v) + ?v" by simp
  also from e le have "\<dots> \<le> of_int m * (61 / 100) / 2 ^ 53 + of_int m * (61 / 100)" by (rule add_mono)
  also have "\<dots> < of_int m" using m by simp
  finally show ?thesis .
qed

lemma flat_cube_no_orientations:
  assumes "0 < s"
  shows "generateOrientations \<lparr> length_dim = s, width = s, height = s \<rparr> flat_only = []"
proof -
  from flat_limit [OF assms] have "\<not> rat_of_int s \<le> fl (of_int s * fl (6 / 10))" by simp
  then show ?thesis by (simp add: generateOrientations_def all_orientations_def Let_def)
qed

lemma cube_compressedAt_empty:
  assumes "orientationConstraints i = flat_only"
    and "dimensions i = \<lparr> length_dim = s, width = s, height = s \<rparr>"
    and "0 < s" and "0 < k" and "k \<le> compressibility i" and "k \<le> 50"
  shows "compressedAt i k = []"
proof -
  from assms(4,6) have "1 / 2 \<le> fl (1 - fl (rat_of_int k / 100))" by (rule level_factor)
  with assms(3) have "0 < Math_round (fl (of_int s * fl (1 - fl (rat_of_int k / 100))))"
    by (rule Math_round_positive)
  then show ?thesis
    using assms(1,2)
    by (simp add: compressedAt_level [OF assms(4,5)] compressDimensions_def
          flat_cube_no_orientations)
qed

lemma cube_rejected:
  assumes "orientationConstraints i = flat_only"
    and "dimensions i = \<lparr> length_dim = s, width = s, height = s \<rparr>"
    and "0 < s" and "compressibility i \<le> 50"
  shows "rejected st (withMetrics i) (packStep bootSpace st (withMetrics i))"
proof -
  let ?it = "withMetrics i"
  have none: "orientations ?it = []"
    using assms(1-3) by (simp add: withMetrics_fields flat_cube_no_orientations)
  then have f: "filterOrientationsForOpening (orientations ?it) bootSpace = []"
    by (simp add: filterOrientationsForOpening_def)
  have levels: "compressedAt ?it k = []" if "5 \<le> k" and "k \<le> compressibility ?it" for k
  proof -
    from that have k: "0 < k" "k \<le> compressibility i" by (simp_all add: withMetrics_fields)
    with assms(4) have "k \<le> 50" by simp
    with assms(1-3) k show ?thesis by (simp add: withMetrics_fields cube_compressedAt_empty)
  qed
  show ?thesis
  proof (cases "hasOpeningConstraints bootSpace")
    case True
    have "openingCompressionLoop ?it bootSpace 5 = None"
      by (rule openingCompressionLoop_None) (simp_all add: levels)
    then have "applyCompressionForOpening ?it bootSpace = None"
      by (simp add: applyCompressionForOpening_def)
    then have "\<not> compressibility ?it > 0 \<or> applyCompressionForOpening ?it bootSpace = None \<or>
         (\<exists>dims applied. applyCompressionForOpening ?it bootSpace = Some (dims, applied) \<and>
            findBestPosition dims bootSpace (packedItems_acc st) = None)" by blast
    from packStep_opening_reject [OF f True this] show ?thesis by (simp add: rejected_def)
  next
    case False
    then have b: "\<not> (filterOrientationsForOpening (orientations ?it) bootSpace = [] \<and>
        hasOpeningConstraints bootSpace)" by simp
    have t: "tryOrientations (filterOrientationsForOpening (orientations ?it) bootSpace) bootSpace
        (packedItems_acc st) = None" by (simp add: f)
    have "spaceCompressionLoop ?it bootSpace (packedItems_acc st) 5 = None"
      by (rule spaceCompressionLoop_None)
         (simp_all add: levels filterOrientationsForOpening_def)
    then have "\<not> compressibility ?it > 0 \<or>
        spaceCompressionLoop ?it bootSpace (packedItems_acc st) 5 = None" by blast
    from packStep_space_reject [OF b t this] show ?thesis by (simp add: rejected_def)
  qed
qed

text \<open>
  A flat-only cube of side 100 with compressibility 100 is packed: at level 100 it is
  compressed to \<open>0 \<times> 0 \<times> 0\<close>, which passes the flat filter (\<open>0 \<le> 0 * 0.6\<close>).
\<close>

theorem flat_cube_counterexample:
  "orientationConstraints overCompressibleCube = flat_only \<and>
   dimensions overCompressibleCube = \<lparr> length_dim = 100, width = 100, height = 100 \<rparr> \<and>
   unpackedItems (packItems mockVehicle [overCompressibleCube]) = [] \<and>
   map orientation (packedItems (packItems mockVehicle [overCompressibleCube])) =
     [\<lparr> length_dim = 0, width = 0, height = 0 \<rparr>]"
  by code_simp

text \<open>
  Claim C9, amended. Every item of the list with \<open>orientationConstraints = flat_only\<close>
  whose three dimensions are equal and positive, and whose compressibility is at most 50
  (the validated range is 0 to 30), is in \<open>unpackedItems\<close> and not in \<open>packedItems\<close>,
  whatever the boot and its opening: the flat filter rejects every permutation of equal
  positive dimensions, and up to 50 percent the compressed cube keeps a positive side.
\<close>

theorem flat_cube_unpacked:
  assumes "i \<in> set items" and "orientationConstraints i = flat_only"
    and "dimensions i = \<lparr> length_dim = s, width = s, height = s \<rparr>"
    and "0 < s" and "compressibility i \<le> 50"
  shows "withMetrics i \<in> set (unpackedItems (packItems vehicle items)) \<and>
         (\<forall>p \<in> set (packedItems (packItems vehicle items)). item p \<noteq> withMetrics i)"
  using cube_rejected [OF assms(2-5)] assms(1) by (rule packItems_rejected)

theorem flat_cube_unpacked_witness:
  "unpackedItems (packItems vehicleWithSmallOpening [smallRigidItem, flatCube]) =
     [withMetrics flatCube] \<and>
   length (packedItems (packItems vehicleWithSmallOpening [smallRigidItem, flatCube])) = 1"
proof -
  let ?r = "packItems vehicleWithSmallOpening [smallRigidItem, flatCube]"
  have 1: "flatCube \<in> set [smallRigidItem, flatCube]" by simp
  have 2: "orientationConstraints flatCube = flat_only"
    and 3: "dimensions flatCube = \<lparr> length_dim = 100, width = 100, height = 100 \<rparr>"
    and 4: "compressibility flatCube \<le> 50" by (simp_all add: flatCube_def)
  from flat_cube_unpacked [OF 1 2 3 _ 4, of vehicleWithSmallOpening]
  have u: "withMetrics flatCube \<in> set (unpackedItems ?r)"
    and p: "\<forall>p \<in> set (packedItems ?r). item p \<noteq> withMetrics flatCube" by simp_all
  have l: "length (unpackedItems ?r) = 1" "length (packedItems ?r) = 1" by code_simp+
  from l(1) obtain a where "unpackedItems ?r = [a]"
    by (cases "unpackedItems ?r") auto
  with u l show ?thesis by simp
qed

section \<open>Empty item list\<close>

text \<open>
  With the boot of the tests and no items, the result has no warning at all.
\<close>

theorem packItems_empty_counterexample:
  "packedItems (packItems mockVehicle []) = [] \<and> unpackedItems (packItems mockVehicle []) = [] \<and>
   warnings (packItems mockVehicle []) = []"
  by code_simp

text \<open>
  Claim C8, amended. With an empty item list and a boot of positive dimensions,
  \<open>packItems\<close> returns \<open>packedItems = []\<close>, \<open>unpackedItems = []\<close>,
  \<open>volumeUtilization = 0\<close> and \<open>bootSpaceUsed = 0\<close>; it adds no warning about the
  empty input: the only warnings possible are the two about the boot itself
  (significant irregularities, opening that limits capacity), and the list of warnings
  is empty for a boot with no significant irregularity and no opening dimension (absent
  or 0).
\<close>

theorem packItems_empty:
  assumes "0 < length_dim (bootMeasurements vehicle)" and "0 < width (bootMeasurements vehicle)"
    and "0 < height (bootMeasurements vehicle)"
  shows "packedItems (packItems vehicle []) = [] \<and>
         unpackedItems (packItems vehicle []) = [] \<and>
         volumeUtilization (packItems vehicle []) = Some 0 \<and>
         bootSpaceUsed (packItems vehicle []) = 0 \<and>
         set (warnings (packItems vehicle [])) \<subseteq>
           {''Boot has significant irregularities that may affect actual packing capacity'',
            ''Boot opening dimensions significantly limit packing capacity compared to internal space''} \<and>
         ((\<forall>irr \<in> set (bootIrregularities vehicle). severity irr \<noteq> SIGNIFICANT) \<and>
          \<not> truthy (openingWidth (bootMeasurements vehicle)) \<and>
          \<not> truthy (openingHeight (bootMeasurements vehicle)) \<longrightarrow>
          warnings (packItems vehicle []) = [])"
proof -
  let ?bs = "calculateEffectiveBootSpace vehicle"
  have l: "packLoop ?bs (preprocessItems []) = initialLoop"
    by (simp add: packLoop_def preprocessItems_def sort_with_def)
  have "0 < volume ?bs" using assms by (simp add: volume_nominal)
  then have ev: "of_int (volume ?bs) * efficiencyFactor ?bs \<noteq> 0"
    using efficiencyFactor_positive [of vehicle] by simp
  have w: "set (irregularityWarnings vehicle @ openingWarnings ?bs initialLoop) \<subseteq>
           {''Boot has significant irregularities that may affect actual packing capacity'',
            ''Boot opening dimensions significantly limit packing capacity compared to internal space''}"
    by (auto simp add: irregularityWarnings_def openingWarnings_def initialLoop_def Let_def)
  have n: "irregularityWarnings vehicle @ openingWarnings ?bs initialLoop = []"
    if "\<forall>irr \<in> set (bootIrregularities vehicle). severity irr \<noteq> SIGNIFICANT"
      and "\<not> truthy (openingWidth (bootMeasurements vehicle))"
      and "\<not> truthy (openingHeight (bootMeasurements vehicle))"
  proof -
    from that(1) have "filter (\<lambda>irr. severity irr = SIGNIFICANT) (bootIrregularities vehicle) = []"
      by (simp add: filter_empty_conv)
    then have "irregularityWarnings vehicle = []" by (simp add: irregularityWarnings_def)
    moreover from that(2,3) have "\<not> hasOpeningConstraints ?bs" by (simp add: opening_nominal)
    then have "openingWarnings ?bs initialLoop = []" by (simp add: openingWarnings_def)
    ultimately show ?thesis by simp
  qed
  have u: "utilization 0 (of_int (volume ?bs) * efficiencyFactor ?bs) = Some 0"
    using ev by (simp add: utilization_def)
  show ?thesis
    using w u n unfolding packItems_def Let_def l
    by (simp add: initialLoop_def)
qed

theorem packItems_empty_witness:
  "packedItems (packItems tightVehicle []) = [] \<and>
   unpackedItems (packItems tightVehicle []) = [] \<and>
   volumeUtilization (packItems tightVehicle []) = Some 0 \<and>
   bootSpaceUsed (packItems tightVehicle []) = 0 \<and>
   warnings (packItems tightVehicle []) = []"
proof -
  have b: "0 < length_dim (bootMeasurements tightVehicle)"
    "0 < width (bootMeasurements tightVehicle)"
    "0 < height (bootMeasurements tightVehicle)"
    by (simp_all add: tightVehicle_def)
  have i: "\<forall>irr \<in> set (bootIrregularities tightVehicle). severity irr \<noteq> SIGNIFICANT"
    by (simp add: tightVehicle_def mockVehicle_def)
  have o: "\<not> truthy (openingWidth (bootMeasurements tightVehicle))"
    "\<not> truthy (openingHeight (bootMeasurements tightVehicle))"
    by (simp_all add: tightVehicle_def)
  from packItems_empty [OF b] i o show ?thesis by blast
qed

end
